theory Spec2Isabelle
  imports Main "HOL-Library.Sublist"
begin

section \<open>Strings of the host language\<close>

text \<open>
  A JavaScript string is a sequence of UTF-16 code units. The model works on the code
  units 0..255 (type \<open>char\<close>), which holds every delimiter of the comment tables below.
  In that range the \<open>WhiteSpace\<close> and \<open>LineTerminator\<close> code points of ECMAScript, which
  are what \<open>\s\<close> and \<open>String.prototype.trim\<close> remove, are TAB, LF, VT, FF, CR, SP and NBSP;
  the line terminators, which \<open>.\<close> refuses, are LF and CR.
\<close>

definition CR :: char where
  "CR = CHR 0x0D"

definition LF :: char where
  "LF = CHR 0x0A"

definition BSL :: char where
  "BSL = CHR 0x5C"

definition is_space :: "char \<Rightarrow> bool" where
  "is_space c = (c \<in> set [CHR 0x09, CHR 0x0A, CHR 0x0B, CHR 0x0C, CHR 0x0D, CHR 0x20, CHR 0xA0])"

definition is_line_terminator :: "char \<Rightarrow> bool" where
  "is_line_terminator c = (c = LF \<or> c = CR)"

definition trim :: "string \<Rightarrow> string" where
  "trim s = rev (dropWhile is_space (rev (dropWhile is_space s)))"

fun startsWith :: "string \<Rightarrow> string \<Rightarrow> bool" where
  "startsWith s [] = True"
| "startsWith [] (p # ps) = False"
| "startsWith (c # cs) (p # ps) = (c = p \<and> startsWith cs ps)"

datatype failure = TypeError | SyntaxError | OutsideModel

section \<open>Regular expressions: \<open>new RegExp\<close> and \<open>exec\<close>\<close>

text \<open>
  The part of the ECMAScript pattern language that the header pattern is written in:
  pattern characters, identity escapes, \<open>\s\<close>, \<open>\r\<close>, \<open>\n\<close>, \<open>.\<close>, the assertion \<open>^\<close> (no
  multiline flag), capturing groups and the greedy quantifiers \<open>*\<close>, \<open>+\<close>, \<open>?\<close>.
\<close>

datatype regex =
    Empty
  | Chr char
  | Dot
  | Space
  | Bol
  | Cat regex regex
  | Star regex
  | Plus regex
  | Opt regex
  | Group nat regex

fun seq :: "regex list \<Rightarrow> regex" where
  "seq [] = Empty"
| "seq (t # ts) = Cat t (seq ts)"

subsection \<open>Parsing a pattern\<close>

text \<open>
  \<open>new RegExp(pattern)\<close> reads the pattern from left to right. The parser state holds the
  terms of the alternative being read (latest first), the enclosing groups that are still
  open (innermost first, each with its capture number), whether a backslash waits for its
  character, what the latest term is, and the number of groups opened so far.

  The fourteen syntax characters are \<open>^ $ \ . * + ? ( ) [ ] { } |\<close>; every other character
  stands for itself. A pattern that needs a construct beyond the part modelled here
  (classes, alternation, braces, \<open>$\<close>, lazy quantifiers, quantified groups, other escapes)
  yields \<open>OutsideModel\<close>; a pattern the language rejects yields \<open>SyntaxError\<close>, the
  exception \<open>new RegExp\<close> throws.
\<close>

datatype last_term = NoAtom | AfterOpen | Atom | GroupAtom | Quantified

record pstate =
  cur :: "regex list"
  outer :: "(nat \<times> regex list) list"
  pending :: bool
  lastt :: last_term
  ngroups :: nat

definition pinit :: pstate where
  "pinit = \<lparr>cur = [], outer = [], pending = False, lastt = NoAtom, ngroups = 0\<rparr>"

definition syntaxChars :: "char list" where
  "syntaxChars = ''^$'' @ [BSL] @ ''.*+?()[]{}|''"

definition push :: "regex \<Rightarrow> pstate \<Rightarrow> pstate" where
  "push t st = st\<lparr>cur := t # cur st, pending := False, lastt := Atom\<rparr>"

definition quantify :: "(regex \<Rightarrow> regex) \<Rightarrow> pstate \<Rightarrow> failure + pstate" where
  "quantify q st =
     (case lastt st of
        Atom \<Rightarrow> (case cur st of
                   [] \<Rightarrow> Inl SyntaxError
                 | t # ts \<Rightarrow> Inr (st\<lparr>cur := q t # ts, lastt := Quantified\<rparr>))
      | GroupAtom \<Rightarrow> Inl OutsideModel
      | Quantified \<Rightarrow> Inl SyntaxError
      | AfterOpen \<Rightarrow> Inl SyntaxError
      | NoAtom \<Rightarrow> Inl SyntaxError)"

definition pstep :: "pstate \<Rightarrow> char \<Rightarrow> failure + pstate" where
  "pstep st c =
     (if pending st then
        (if c = CHR ''s'' then Inr (push Space st)
         else if c = CHR ''r'' then Inr (push (Chr CR) st)
         else if c = CHR ''n'' then Inr (push (Chr LF) st)
         else if c \<in> set syntaxChars \<or> c = CHR ''-'' \<or> c = CHR ''/'' then Inr (push (Chr c) st)
         else Inl OutsideModel)
      else if c = BSL then Inr (st\<lparr>pending := True\<rparr>)
      else if c = CHR ''^'' then Inr (st\<lparr>cur := Bol # cur st, lastt := NoAtom\<rparr>)
      else if c = CHR ''.'' then Inr (push Dot st)
      else if c = CHR ''('' then
        Inr (st\<lparr>cur := [], outer := (Suc (ngroups st), cur st) # outer st,
                 lastt := AfterOpen, ngroups := Suc (ngroups st)\<rparr>)
      else if c = CHR '')'' then
        (case outer st of
           [] \<Rightarrow> Inl SyntaxError
         | (k, ts) # os \<Rightarrow>
             Inr (st\<lparr>cur := Group k (seq (rev (cur st))) # ts, outer := os, lastt := GroupAtom\<rparr>))
      else if c = CHR ''*'' then quantify Star st
      else if c = CHR ''+'' then quantify Plus st
      else if c = CHR ''?'' then
        (if lastt st = Quantified \<or> lastt st = AfterOpen then Inl OutsideModel
         else quantify Opt st)
      else if c \<in> set ''$[]{}|'' then Inl OutsideModel
      else Inr (push (Chr c) st))"

fun pfold :: "pstate \<Rightarrow> string \<Rightarrow> failure + pstate" where
  "pfold st [] = Inr st"
| "pfold st (c # cs) = (case pstep st c of Inl e \<Rightarrow> Inl e | Inr st' \<Rightarrow> pfold st' cs)"

definition newRegExp :: "string \<Rightarrow> failure + regex" where
  "newRegExp p =
     (case pfold pinit p of
        Inl e \<Rightarrow> Inl e
      | Inr st \<Rightarrow>
          if pending st \<or> outer st \<noteq> [] then Inl SyntaxError
          else Inr (seq (rev (cur st))))"

subsection \<open>Matching\<close>

text \<open>
  The matcher is the backtracking matcher of the language: from a state it yields every
  state the term can end in, in the order backtracking tries them, so the head of the list
  is the match the engine reports. A state is the text before the current position, the
  text from it on, and the captures made so far (latest first).

  A greedy repetition tries one more round first and gives up the round that consumed
  nothing. Every round it keeps consumes at least one character, so the number of
  characters left bounds the rounds: that is the first argument of \<open>rounds\<close>.
\<close>

type_synonym mstate = "string \<times> string \<times> (nat \<times> string) list"

fun consume :: "(char \<Rightarrow> bool) \<Rightarrow> mstate \<Rightarrow> mstate list" where
  "consume P (pre, [], cs) = []"
| "consume P (pre, c # rest, cs) = (if P c then [(pre @ [c], rest, cs)] else [])"

definition progress :: "mstate \<Rightarrow> mstate \<Rightarrow> bool" where
  "progress x y = (length (fst (snd y)) < length (fst (snd x)))"

fun rounds :: "nat \<Rightarrow> (mstate \<Rightarrow> mstate list) \<Rightarrow> mstate \<Rightarrow> mstate list" where
  "rounds 0 f x = [x]"
| "rounds (Suc n) f x = concat (map (rounds n f) (filter (progress x) (f x))) @ [x]"

definition capture :: "nat \<Rightarrow> mstate \<Rightarrow> mstate \<Rightarrow> mstate" where
  "capture k x y = (fst y, fst (snd y), (k, drop (length (fst x)) (fst y)) # snd (snd y))"

primrec rmatch :: "regex \<Rightarrow> mstate \<Rightarrow> mstate list" where
  "rmatch Empty = (\<lambda>x. [x])"
| "rmatch (Chr c) = consume (\<lambda>d. d = c)"
| "rmatch Dot = consume (\<lambda>d. \<not> is_line_terminator d)"
| "rmatch Space = consume is_space"
| "rmatch Bol = (\<lambda>x. if fst x = [] then [x] else [])"
| "rmatch (Cat r1 r2) = (\<lambda>x. concat (map (rmatch r2) (rmatch r1 x)))"
| "rmatch (Star r) = (\<lambda>x. rounds (length (fst (snd x))) (rmatch r) x)"
| "rmatch (Plus r) =
     (\<lambda>x. concat (map (\<lambda>y. rounds (length (fst (snd y))) (rmatch r) y) (rmatch r x)))"
| "rmatch (Opt r) = (\<lambda>x. filter (progress x) (rmatch r x) @ [x])"
| "rmatch (Group k r) = (\<lambda>x. map (capture k x) (rmatch r x))"

text \<open>
  \<open>re.exec(s)\<close> without the global flag tries the start indices 0, 1, ... in turn and
  reports the first match: its index, the matched text and the captures.
\<close>

record rx_match =
  index :: nat
  matched :: string
  groups :: "(nat \<times> string) list"

fun exec_at :: "regex \<Rightarrow> string \<Rightarrow> nat list \<Rightarrow> rx_match option" where
  "exec_at r s [] = None"
| "exec_at r s (i # is) =
     (case rmatch r (take i s, drop i s, []) of
        [] \<Rightarrow> exec_at r s is
      | y # _ \<Rightarrow> Some \<lparr>index = i, matched = drop i (fst y), groups = snd (snd y)\<rparr>)"

definition exec :: "regex \<Rightarrow> string \<Rightarrow> rx_match option" where
  "exec r s = exec_at r s [0..<Suc (length s)]"

text \<open>\<open>match[1] || ''\<close>: the text of group 1, the empty string when it took no part.\<close>

definition group1 :: "rx_match \<Rightarrow> string" where
  "group1 m = (case map_of (groups m) 1 of None \<Rightarrow> [] | Some g \<Rightarrow> g)"

section \<open>The comment-style table: \<open>getCommentTokens\<close>\<close>

datatype CommentTokens = Line string | Block string string

text \<open>
  \<open>lineMap\<close> and \<open>blockMap\<close> are object literals, and \<open>lineMap[languageId]\<close> is a property
  read: it finds the literal's own entries and, for a key the literal does not have, the
  members every object inherits from \<open>Object.prototype\<close>, which are functions (and, for
  \<open>__proto__\<close>, an object), all of them truthy.
\<close>

datatype 'a js_prop = Own 'a | Inherited | Absent

definition objectPrototypeKeys :: "string list" where
  "objectPrototypeKeys =
     [''constructor'', ''hasOwnProperty'', ''isPrototypeOf'', ''propertyIsEnumerable'',
      ''toLocaleString'', ''toString'', ''valueOf'', ''__proto__'',
      ''__defineGetter__'', ''__defineSetter__'', ''__lookupGetter__'', ''__lookupSetter__'']"

definition js_get :: "(string \<times> 'a) list \<Rightarrow> string \<Rightarrow> 'a js_prop" where
  "js_get obj k =
     (case map_of obj k of
        Some v \<Rightarrow> Own v
      | None \<Rightarrow> if k \<in> set objectPrototypeKeys then Inherited else Absent)"

definition lineMap :: "(string \<times> string) list" where
  "lineMap =
     [(''javascript'', ''// ''), (''javascriptreact'', ''// ''),
      (''typescript'', ''// ''), (''typescriptreact'', ''// ''),
      (''jsonc'', ''// ''), (''java'', ''// ''), (''c'', ''// ''), (''cpp'', ''// ''),
      (''csharp'', ''// ''),
      (''go'', ''// ''), (''kotlin'', ''// ''), (''swift'', ''// ''), (''rust'', ''// ''),
      (''dart'', ''// ''),
      (''php'', ''// ''), (''scala'', ''// ''), (''fsharp'', ''// ''), (''zig'', ''// ''),
      (''verilog'', ''// ''), (''systemverilog'', ''// ''),
      (''python'', ''# ''), (''ruby'', ''# ''), (''perl'', ''# ''), (''powershell'', ''# ''),
      (''shellscript'', ''# ''),
      (''tcl'', ''# ''), (''makefile'', ''# ''), (''r'', ''# ''), (''julia'', ''# ''),
      (''nim'', ''# ''), (''crystal'', ''# ''),
      (''yaml'', ''# ''), (''toml'', ''# ''), (''dotenv'', ''# ''), (''dockerfile'', ''# ''),
      (''properties'', ''# ''), (''ini'', ''; ''),
      (''haskell'', ''-- ''), (''sql'', ''-- ''), (''vhdl'', ''-- ''), (''lua'', ''-- ''),
      (''clojure'', ''; ''), (''clojurescript'', ''; ''), (''lisp'', ''; ''),
      (''scheme'', ''; ''),
      (''erlang'', ''% ''), (''prolog'', ''% ''), (''matlab'', ''% ''), (''latex'', ''% ''),
      (''bibtex'', ''% '')]"

definition blockMap :: "(string \<times> string \<times> string) list" where
  "blockMap =
     [(''html'', ''<!-- '', '' -->''),
      (''xml'', ''<!-- '', '' -->''),
      (''svg'', ''<!-- '', '' -->''),
      (''css'', ''/* '', '' */''),
      (''markdown'', ''<!-- '', '' -->''),
      (''vue'', ''<!-- '', '' -->''),
      (''svelte'', ''<!-- '', '' -->''),
      (''ocaml'', ''(* '', '' *)''),
      (''pascal'', ''{ '', '' }''),
      (''handlebars'', ''{{!-- '', '' --}}''),
      (''twig'', ''{# '', '' #}'')]"

text \<open>
  The result is \<open>Inr\<close> of the tokens when they are what the declared type says. For an
  inherited member the function returns \<open>{ kind: 'line', start: member }\<close> (or, from the
  block table, an object without \<open>start\<close> and \<open>end\<close>), whose \<open>start\<close> is no string:
  \<open>Inl\<close> of the key. An own value is falsy only when it is the empty string.
\<close>

definition getCommentTokens :: "string \<Rightarrow> string + CommentTokens" where
  "getCommentTokens languageId =
     (case js_get lineMap languageId of
        Inherited \<Rightarrow> Inl languageId
      | Own line \<Rightarrow>
          if line \<noteq> [] then Inr (Line line)
          else (case js_get blockMap languageId of
                  Inherited \<Rightarrow> Inl languageId
                | Own (s, e) \<Rightarrow> Inr (Block s e)
                | Absent \<Rightarrow> Inr (Line ''// ''))
      | Absent \<Rightarrow>
          (case js_get blockMap languageId of
             Inherited \<Rightarrow> Inl languageId
           | Own (s, e) \<Rightarrow> Inr (Block s e)
           | Absent \<Rightarrow> Inr (Line ''// '')))"

section \<open>The header line and its pattern\<close>

datatype EndOfLine = EolLF | EolCRLF

definition nlOf :: "EndOfLine \<Rightarrow> string" where
  "nlOf e = (if e = EolCRLF then [CR, LF] else [LF])"

definition headerText :: "CommentTokens \<Rightarrow> string \<Rightarrow> string \<Rightarrow> EndOfLine \<Rightarrow> string" where
  "headerText tokens label rel e =
     (let nl = nlOf e; txt = label @ '': '' @ rel
      in case tokens of
           Line start \<Rightarrow> start @ txt @ nl
         | Block start end \<Rightarrow> start @ txt @ end @ nl)"

text \<open>
  \<open>s.replace(/[...]/g, '\\$&')\<close> puts a backslash before every character of the class.
  The first version of \<open>headerRegex\<close> uses \<open>esc\<close>, the second \<open>reEscape\<close>, which also
  escapes \<open>-\<close> and \<open>/\<close>.
\<close>

definition escapeWith :: "char list \<Rightarrow> string \<Rightarrow> string" where
  "escapeWith cls s = concat (map (\<lambda>c. if c \<in> set cls then [BSL, c] else [c]) s)"

definition esc :: "string \<Rightarrow> string" where
  "esc s = escapeWith (''.*+?^${}()|[]'' @ [BSL]) s"

definition reEscape :: "string \<Rightarrow> string" where
  "reEscape lit = escapeWith (''-/'' @ [BSL] @ ''^$*+?.()|[]{}'') lit"

definition headerRegex :: "CommentTokens \<Rightarrow> string \<Rightarrow> failure + regex" where
  "headerRegex tokens label =
     (case tokens of
        Line start \<Rightarrow>
          newRegExp (''^'' @ [BSL] @ ''s*'' @ esc start @ esc label @ '':'' @ [BSL]
                     @ ''s*(.+)'' @ [BSL] @ ''r?'' @ [BSL] @ ''n?'')
      | Block start end \<Rightarrow>
          newRegExp (''^'' @ [BSL] @ ''s*'' @ esc start @ esc label @ '':'' @ [BSL]
                     @ ''s*(.+)'' @ esc end @ [BSL] @ ''r?'' @ [BSL] @ ''n?''))"

definition headerRegex_2 :: "CommentTokens \<Rightarrow> string \<Rightarrow> failure + regex" where
  "headerRegex_2 tokens label =
     (let start = (case tokens of Line s \<Rightarrow> s | Block s e \<Rightarrow> s);
          end = (case tokens of Line s \<Rightarrow> [] | Block s e \<Rightarrow> e);
          pattern = ''^'' @ [BSL] @ ''s*'' @ reEscape start @ reEscape label @ '':'' @ [BSL]
                    @ ''s*(.+)'' @ (if end \<noteq> [] then reEscape end else [])
                    @ [BSL] @ ''r?'' @ [BSL] @ ''n?''
      in newRegExp pattern)"

section \<open>The document and the host\<close>

text \<open>
  A text document of the editor is its lines, held without their terminators, and one
  end-of-line sequence for the whole document; \<open>getText\<close> joins the lines with it. A
  position is a line and a character index; an offset counts the characters of the joined
  text. A position outside the document is moved to the nearest one inside before it is
  used, and \<open>positionAt\<close> never answers with a position inside a terminator.
\<close>

record Position =
  line :: nat
  character :: nat

record Range =
  rstart :: Position
  rend :: Position

record TextDocument =
  docId :: nat
  languageId :: string
  lines :: "string list"
  eol :: EndOfLine
  fileName :: string
  workspaceFolder :: "(string \<times> string) option"

definition lineCount :: "TextDocument \<Rightarrow> nat" where
  "lineCount doc = length (lines doc)"

definition lineAt :: "TextDocument \<Rightarrow> nat \<Rightarrow> string" where
  "lineAt doc i = lines doc ! i"

fun joinLines :: "string \<Rightarrow> string list \<Rightarrow> string" where
  "joinLines nl [] = []"
| "joinLines nl [l] = l"
| "joinLines nl (l # ls) = l @ nl @ joinLines nl ls"

definition fullText :: "TextDocument \<Rightarrow> string" where
  "fullText doc = joinLines (nlOf (eol doc)) (lines doc)"

fun offsetIn :: "nat \<Rightarrow> string list \<Rightarrow> nat \<Rightarrow> nat \<Rightarrow> nat" where
  "offsetIn n [] ln ch = 0"
| "offsetIn n [l] ln ch = (if ln = 0 then min ch (length l) else length l)"
| "offsetIn n (l # ls) ln ch =
     (case ln of 0 \<Rightarrow> min ch (length l) | Suc k \<Rightarrow> length l + n + offsetIn n ls k ch)"

definition offsetAt :: "TextDocument \<Rightarrow> Position \<Rightarrow> nat" where
  "offsetAt doc p = offsetIn (length (nlOf (eol doc))) (lines doc) (line p) (character p)"

fun positionIn :: "nat \<Rightarrow> string list \<Rightarrow> nat \<Rightarrow> nat \<Rightarrow> Position" where
  "positionIn n [] ln off = \<lparr>line = ln, character = 0\<rparr>"
| "positionIn n [l] ln off = \<lparr>line = ln, character = min off (length l)\<rparr>"
| "positionIn n (l # ls) ln off =
     (if off < length l + n then \<lparr>line = ln, character = min off (length l)\<rparr>
      else positionIn n ls (Suc ln) (off - (length l + n)))"

definition positionAt :: "TextDocument \<Rightarrow> nat \<Rightarrow> Position" where
  "positionAt doc off = positionIn (length (nlOf (eol doc))) (lines doc) 0 off"

definition getText :: "TextDocument \<Rightarrow> Range \<Rightarrow> string" where
  "getText doc r =
     (let a = offsetAt doc (rstart r); b = offsetAt doc (rend r)
      in take (b - a) (drop a (fullText doc)))"

text \<open>
  The workspace: a document inside a workspace folder carries the folder's name and its
  own path relative to the folder. \<open>asRelativePath(uri, false)\<close> is that path, and the
  file's own path when no folder holds the file; \<open>fileName\<close> is the file's path.
\<close>

definition asRelativePath :: "TextDocument \<Rightarrow> string" where
  "asRelativePath doc = (case workspaceFolder doc of None \<Rightarrow> fileName doc | Some (name, rel) \<Rightarrow> rel)"

record Host =
  activeTextEditor :: "nat option"
  cfgLabel :: "string option"
  cfgIncludeWorkspaceFolder :: "bool option"

text \<open>\<open>(get('relpath.label') || 'Path').trim() || 'Path'\<close>\<close>

definition configuredLabel :: "Host \<Rightarrow> string" where
  "configuredLabel h =
     (let v = (case cfgLabel h of None \<Rightarrow> ''Path'' | Some s \<Rightarrow> if s = [] then ''Path'' else s);
          t = trim v
      in if t = [] then ''Path'' else t)"

definition getRelPathOrAbs :: "Host \<Rightarrow> TextDocument \<Rightarrow> string" where
  "getRelPathOrAbs h doc =
     (let ws = workspaceFolder doc; rel = asRelativePath doc
      in case ws of
           None \<Rightarrow> fileName doc
         | Some (name, r) \<Rightarrow>
             (let includeWsName = (case cfgIncludeWorkspaceFolder h of None \<Rightarrow> True | Some b \<Rightarrow> b)
              in if includeWsName then name @ ''/'' @ rel else rel))"

section \<open>Where the header goes and what is done: \<open>insertionPosition\<close>, \<open>ensureHeader\<close>\<close>

function insertionLoop :: "TextDocument \<Rightarrow> nat \<Rightarrow> nat" where
  "insertionLoop doc ln =
     (if ln < lineCount doc \<and> trim (lineAt doc ln) = [] then insertionLoop doc (Suc ln) else ln)"
  by pat_completeness auto
termination
  by (relation "measure (\<lambda>(doc, ln). lineCount doc - ln)") auto

declare insertionLoop.simps [simp del]

definition insertionPosition :: "TextDocument \<Rightarrow> Position" where
  "insertionPosition doc =
     (let ln = (if 0 < lineCount doc \<and> startsWith (lineAt doc 0) ''#!'' then 1 else 0)
      in \<lparr>line = insertionLoop doc ln, character = 0\<rparr>)"

text \<open>
  What the callback of \<open>editor.edit\<close> leaves in the edit builder: nothing, one insertion or
  one replacement. \<open>ensureHeader\<close> answers \<open>None\<close> when it returns before \<open>editor.edit\<close>, and
  \<open>Inl\<close> when it throws: \<open>esc(tokens.start)\<close> throws a TypeError when \<open>start\<close> is no
  string, \<open>new RegExp\<close> a SyntaxError on a malformed pattern.
\<close>

datatype Edit = NoEdit | Insert Position string | Replace Range string

definition firstChunk :: "TextDocument \<Rightarrow> string" where
  "firstChunk doc =
     (let toLine = min 10 (lineCount doc)
      in getText doc \<lparr>rstart = \<lparr>line = 0, character = 0\<rparr>,
                      rend = \<lparr>line = toLine, character = 0\<rparr>\<rparr>)"

definition ensureHeader :: "Host \<Rightarrow> TextDocument \<Rightarrow> failure + Edit option" where
  "ensureHeader h doc =
     (if activeTextEditor h \<noteq> Some (docId doc) then Inr None
      else
        (let label = configuredLabel h in
         (case getCommentTokens (languageId doc) of
            Inl key \<Rightarrow> Inl TypeError
          | Inr tokens \<Rightarrow>
              (let rel = asRelativePath doc;
                   txt = headerText tokens label rel (eol doc)
               in (case headerRegex tokens label of
                     Inl e \<Rightarrow> Inl e
                   | Inr re \<Rightarrow>
                       (case exec re (firstChunk doc) of
                          Some m \<Rightarrow>
                            (let start = \<lparr>line = 0, character = 0\<rparr>;
                                 end = positionAt doc (length (matched m));
                                 current = trim (group1 m)
                             in if current \<noteq> rel
                                then Inr (Some (Replace \<lparr>rstart = start, rend = end\<rparr> txt))
                                else Inr (Some NoEdit))
                        | None \<Rightarrow> Inr (Some (Insert (insertionPosition doc) txt))))))))"

definition ensureHeader_2 :: "Host \<Rightarrow> TextDocument \<Rightarrow> failure + Edit option" where
  "ensureHeader_2 h doc =
     (if activeTextEditor h \<noteq> Some (docId doc) then Inr None
      else
        (let label = configuredLabel h in
         (case getCommentTokens (languageId doc) of
            Inl key \<Rightarrow> Inl TypeError
          | Inr tokens \<Rightarrow>
              (let rel = getRelPathOrAbs h doc;
                   txt = headerText tokens label rel (eol doc)
               in (case headerRegex_2 tokens label of
                     Inl e \<Rightarrow> Inl e
                   | Inr re \<Rightarrow>
                       (case exec re (firstChunk doc) of
                          Some m \<Rightarrow>
                            (let start = \<lparr>line = 0, character = 0\<rparr>;
                                 end = positionAt doc (length (matched m));
                                 current = trim (group1 m)
                             in if current \<noteq> rel
                                then Inr (Some (Replace \<lparr>rstart = start, rend = end\<rparr> txt))
                                else Inr (Some NoEdit))
                        | None \<Rightarrow> Inr (Some (Insert (insertionPosition doc) txt))))))))"

section \<open>Applying the edit\<close>

text \<open>
  The host applies the builder's edit to the document's text as one splice and reads the
  lines of the result again, a line ending at CR LF, at LF or at CR.
\<close>

definition editedText :: "TextDocument \<Rightarrow> Edit \<Rightarrow> string" where
  "editedText doc e =
     (case e of
        NoEdit \<Rightarrow> fullText doc
      | Insert p txt \<Rightarrow>
          (let a = offsetAt doc p in take a (fullText doc) @ txt @ drop a (fullText doc))
      | Replace r txt \<Rightarrow>
          (let a = offsetAt doc (rstart r); b = offsetAt doc (rend r)
           in take a (fullText doc) @ txt @ drop (max a b) (fullText doc)))"

fun splitLines :: "string \<Rightarrow> string list" where
  "splitLines [] = [[]]"
| "splitLines (c # cs) =
     (if c = CR then (case cs of [] \<Rightarrow> [[], []]
                      | d # ds \<Rightarrow> if d = LF then [] # splitLines ds else [] # splitLines cs)
      else if c = LF then [] # splitLines cs
      else (case splitLines cs of [] \<Rightarrow> [[c]] | l # ls \<Rightarrow> (c # l) # ls))"

definition applyEdit :: "TextDocument \<Rightarrow> Edit \<Rightarrow> TextDocument" where
  "applyEdit doc e = doc\<lparr>lines := splitLines (editedText doc e)\<rparr>"

section \<open>The pattern as a term, and the documents of the examples\<close>

definition startOf :: "CommentTokens \<Rightarrow> string" where
  "startOf tokens = (case tokens of Line s \<Rightarrow> s | Block s e \<Rightarrow> s)"

definition endOf :: "CommentTokens \<Rightarrow> string" where
  "endOf tokens = (case tokens of Line s \<Rightarrow> [] | Block s e \<Rightarrow> e)"

text \<open>
  The term the header pattern is meant to denote: start of input, whitespace, the start
  delimiter and the label character by character, a colon, whitespace, group 1 holding one
  or more characters of a line, the end delimiter, an optional CR and an optional LF.
\<close>

definition headerAst :: "CommentTokens \<Rightarrow> string \<Rightarrow> regex" where
  "headerAst tokens label =
     seq ([Bol, Star Space] @ map Chr (startOf tokens) @ map Chr label
          @ [Chr (CHR '':''), Star Space, Group 1 (seq [Plus Dot])]
          @ map Chr (endOf tokens) @ [Opt (Chr CR), Opt (Chr LF)])"

text \<open>
  A class of characters escapes a literal well when it holds every syntax character and,
  beyond them, at most \<open>-\<close> and \<open>/\<close>, whose escapes stand for themselves.
\<close>

definition escapeClass :: "char list \<Rightarrow> bool" where
  "escapeClass cls =
     (set syntaxChars \<subseteq> set cls \<and> set cls \<subseteq> set syntaxChars \<union> {CHR ''-'', CHR ''/''})"

text \<open>The body that the two versions of \<open>ensureHeader\<close> share, once the editor is the
  document's, the tokens are strings and the pattern is the term above: what the callback
  of \<open>editor.edit\<close> registers for a target path \<open>rel\<close>.\<close>

definition decide :: "CommentTokens \<Rightarrow> string \<Rightarrow> string \<Rightarrow> TextDocument \<Rightarrow> Edit" where
  "decide tokens label rel doc =
     (case exec (headerAst tokens label) (firstChunk doc) of
        None \<Rightarrow> Insert (insertionPosition doc) (headerText tokens label rel (eol doc))
      | Some m \<Rightarrow>
          if trim (group1 m) = rel then NoEdit
          else Replace \<lparr>rstart = \<lparr>line = 0, character = 0\<rparr>,
                         rend = positionAt doc (length (matched m))\<rparr>
                 (headerText tokens label rel (eol doc)))"

definition isBlank :: "string \<Rightarrow> bool" where
  "isBlank l = (trim l = [])"

text \<open>A line of a document, as the host holds it, has no line terminator inside.\<close>

definition noTerminator :: "string \<Rightarrow> bool" where
  "noTerminator l = list_all (\<lambda>c. \<not> is_line_terminator c) l"

definition activeHost :: "TextDocument \<Rightarrow> Host" where
  "activeHost doc = \<lparr>activeTextEditor = Some (docId doc), cfgLabel = None,
                      cfgIncludeWorkspaceFolder = None\<rparr>"

definition idleHost :: Host where
  "idleHost = \<lparr>activeTextEditor = None, cfgLabel = None, cfgIncludeWorkspaceFolder = None\<rparr>"

definition shebangDoc :: TextDocument where
  "shebangDoc = \<lparr>docId = 1, languageId = ''shellscript'',
                  lines = [''#!/bin/sh'', ''echo hi''], eol = EolLF,
                  fileName = ''/proj/run.sh'', workspaceFolder = Some (''proj'', ''run.sh'')\<rparr>"

definition shebangBlankDoc :: TextDocument where
  "shebangBlankDoc = \<lparr>docId = 2, languageId = ''shellscript'',
                       lines = [''#!/bin/sh'', [], ''echo hi''], eol = EolLF,
                       fileName = ''/proj/run.sh'', workspaceFolder = Some (''proj'', ''run.sh'')\<rparr>"

definition blankLinesDoc :: TextDocument where
  "blankLinesDoc = \<lparr>docId = 3, languageId = ''python'',
                     lines = [[], [], [], ''import os''], eol = EolLF,
                     fileName = ''/proj/src/app.py'',
                     workspaceFolder = Some (''proj'', ''src/app.py'')\<rparr>"

definition pythonDoc :: TextDocument where
  "pythonDoc = \<lparr>docId = 4, languageId = ''python'',
                 lines = [''import os'', []], eol = EolLF,
                 fileName = ''/proj/src/app.py'',
                 workspaceFolder = Some (''proj'', ''src/app.py'')\<rparr>"

definition htmlDoc :: TextDocument where
  "htmlDoc = \<lparr>docId = 5, languageId = ''html'',
               lines = [''<!-- Path: old/loc.html -->'', ''<p>x</p>''], eol = EolCRLF,
               fileName = ''/proj/new/loc.html'',
               workspaceFolder = Some (''proj'', ''new/loc.html'')\<rparr>"

definition staleAfterBlankDoc :: TextDocument where
  "staleAfterBlankDoc = \<lparr>docId = 6, languageId = ''typescript'',
                          lines = [[], ''// Path: old.ts'', ''let x = 1''], eol = EolLF,
                          fileName = ''/proj/new.ts'',
                          workspaceFolder = Some (''proj'', ''new.ts'')\<rparr>"

definition outsideDoc :: TextDocument where
  "outsideDoc = \<lparr>docId = 7, languageId = ''typescript'',
                  lines = [''let x = 1''], eol = EolLF,
                  fileName = ''/tmp/a.ts'', workspaceFolder = None\<rparr>"

definition protoDoc :: TextDocument where
  "protoDoc = \<lparr>docId = 8, languageId = ''constructor'',
                lines = [''x''], eol = EolLF,
                fileName = ''/proj/a.txt'', workspaceFolder = Some (''proj'', ''a.txt'')\<rparr>"

definition loneShebangDoc :: TextDocument where
  "loneShebangDoc = \<lparr>docId = 9, languageId = ''shellscript'',
                      lines = [''#!/bin/sh''], eol = EolLF,
                      fileName = ''/proj/run.sh'', workspaceFolder = Some (''proj'', ''run.sh'')\<rparr>"

section \<open>The pattern that \<open>headerRegex\<close> builds\<close>

lemma pfold_append:
  "pfold st (a @ b) = (case pfold st a of Inl e \<Rightarrow> Inl e | Inr st' \<Rightarrow> pfold st' b)"
  by (induction a arbitrary: st) (auto split: sum.splits)

lemma escapeWith_Cons:
  "escapeWith cls (c # s) = (if c \<in> set cls then [BSL, c] else [c]) @ escapeWith cls s"
  by (simp add: escapeWith_def)

lemma escapeWith_Nil: "escapeWith cls [] = []"
  by (simp add: escapeWith_def)

lemma pstep_escaped:
  assumes "escapeClass cls" "c \<in> set cls"
  shows "pfold \<lparr>cur = ts, outer = os, pending = False, lastt = lt, ngroups = n\<rparr> ([BSL, c] @ rest)
       = pfold \<lparr>cur = Chr c # ts, outer = os, pending = False, lastt = Atom, ngroups = n\<rparr> rest"
proof -
  from assms have c: "c \<in> set syntaxChars \<or> c = CHR ''-'' \<or> c = CHR ''/''"
    by (auto simp: escapeClass_def)
  then have "c \<noteq> CHR ''s''" "c \<noteq> CHR ''r''" "c \<noteq> CHR ''n''"
    by (auto simp: syntaxChars_def BSL_def)
  with c show ?thesis
    by (simp add: pstep_def push_def)
qed

lemma pstep_plain:
  assumes "escapeClass cls" "c \<notin> set cls"
  shows "pfold \<lparr>cur = ts, outer = os, pending = False, lastt = lt, ngroups = n\<rparr> ([c] @ rest)
       = pfold \<lparr>cur = Chr c # ts, outer = os, pending = False, lastt = Atom, ngroups = n\<rparr> rest"
proof -
  from assms have c: "c \<notin> set syntaxChars"
    by (auto simp: escapeClass_def)
  then show ?thesis
    by (simp add: pstep_def push_def syntaxChars_def BSL_def)
qed

text \<open>
  An escaped literal is read back as its own characters, one \<open>Chr\<close> each, whatever the
  literal holds.
\<close>

lemma pfold_literal:
  assumes "escapeClass cls"
  shows "pfold \<lparr>cur = ts, outer = os, pending = False, lastt = lt, ngroups = n\<rparr>
           (escapeWith cls s @ rest)
       = pfold \<lparr>cur = rev (map Chr s) @ ts, outer = os, pending = False,
                 lastt = (if s = [] then lt else Atom), ngroups = n\<rparr> rest"
proof (induction s arbitrary: ts lt)
  case Nil
  show ?case by (simp add: escapeWith_Nil)
next
  case (Cons c s)
  show ?case
  proof (cases "c \<in> set cls")
    case True
    have "pfold \<lparr>cur = ts, outer = os, pending = False, lastt = lt, ngroups = n\<rparr>
            (escapeWith cls (c # s) @ rest)
        = pfold \<lparr>cur = ts, outer = os, pending = False, lastt = lt, ngroups = n\<rparr>
            ([BSL, c] @ (escapeWith cls s @ rest))"
      using True by (simp add: escapeWith_Cons)
    also have "\<dots> = pfold \<lparr>cur = Chr c # ts, outer = os, pending = False, lastt = Atom,
                            ngroups = n\<rparr> (escapeWith cls s @ rest)"
      by (rule pstep_escaped [OF assms True])
    finally show ?thesis by (simp add: Cons.IH)
  next
    case False
    have "pfold \<lparr>cur = ts, outer = os, pending = False, lastt = lt, ngroups = n\<rparr>
            (escapeWith cls (c # s) @ rest)
        = pfold \<lparr>cur = ts, outer = os, pending = False, lastt = lt, ngroups = n\<rparr>
            ([c] @ (escapeWith cls s @ rest))"
      using False by (simp add: escapeWith_Cons)
    also have "\<dots> = pfold \<lparr>cur = Chr c # ts, outer = os, pending = False, lastt = Atom,
                            ngroups = n\<rparr> (escapeWith cls s @ rest)"
      by (rule pstep_plain [OF assms False])
    finally show ?thesis by (simp add: Cons.IH)
  qed
qed

lemma escapeClass_esc: "escapeClass (''.*+?^${}()|[]'' @ [BSL])"
  by (simp add: escapeClass_def syntaxChars_def)

lemma escapeClass_reEscape: "escapeClass (''-/'' @ [BSL] @ ''^$*+?.()|[]{}'')"
  by (simp add: escapeClass_def syntaxChars_def)

lemma header_pattern:
  assumes "escapeClass cls"
  shows "newRegExp (''^'' @ [BSL] @ ''s*'' @ escapeWith cls st @ escapeWith cls lb @ '':'' @ [BSL]
                     @ ''s*(.+)'' @ escapeWith cls en @ [BSL] @ ''r?'' @ [BSL] @ ''n?'')
       = Inr (seq ([Bol, Star Space] @ map Chr st @ map Chr lb
          @ [Chr (CHR '':''), Star Space, Group 1 (seq [Plus Dot])]
          @ map Chr en @ [Opt (Chr CR), Opt (Chr LF)]))"
proof -
  have 1: "pfold pinit (''^'' @ [BSL] @ ''s*'' @ rest)
         = pfold \<lparr>cur = [Star Space, Bol], outer = [], pending = False, lastt = Quantified,
                   ngroups = 0\<rparr> rest" for rest
    by (simp add: pinit_def pstep_def push_def quantify_def BSL_def)
  have 2: "pfold \<lparr>cur = ts, outer = [], pending = False, lastt = lt, ngroups = 0\<rparr>
             ('':'' @ [BSL] @ ''s*(.+)'' @ rest)
         = pfold \<lparr>cur = Group 1 (seq [Plus Dot]) # Star Space # Chr (CHR '':'') # ts,
                   outer = [], pending = False, lastt = GroupAtom, ngroups = 1\<rparr> rest"
    for ts lt rest
    by (simp add: pstep_def push_def quantify_def BSL_def)
  have 3: "pfold \<lparr>cur = ts, outer = [], pending = False, lastt = lt, ngroups = 1\<rparr>
             ([BSL] @ ''r?'' @ [BSL] @ ''n?'')
         = Inr \<lparr>cur = Opt (Chr LF) # Opt (Chr CR) # ts, outer = [], pending = False,
                 lastt = Quantified, ngroups = 1\<rparr>" for ts lt
    by (simp add: pstep_def push_def quantify_def BSL_def)
  show ?thesis
    unfolding newRegExp_def
    by (simp only: 1 2 3 pfold_literal [OF assms] append_assoc) simp
qed

lemma headerRegex_ast: "headerRegex tokens label = Inr (headerAst tokens label)"
proof -
  let ?cls = "''.*+?^${}()|[]'' @ [BSL]"
  have "headerRegex tokens label
      = newRegExp (''^'' @ [BSL] @ ''s*'' @ escapeWith ?cls (startOf tokens)
                   @ escapeWith ?cls label @ '':'' @ [BSL] @ ''s*(.+)''
                   @ escapeWith ?cls (endOf tokens) @ [BSL] @ ''r?'' @ [BSL] @ ''n?'')"
    by (cases tokens)
       (simp_all add: headerRegex_def esc_def startOf_def endOf_def escapeWith_Nil)
  also have "\<dots> = Inr (headerAst tokens label)"
    unfolding headerAst_def by (rule header_pattern [OF escapeClass_esc])
  finally show ?thesis .
qed

lemma headerRegex_2_ast: "headerRegex_2 tokens label = Inr (headerAst tokens label)"
proof -
  let ?cls = "''-/'' @ [BSL] @ ''^$*+?.()|[]{}''"
  have "headerRegex_2 tokens label
      = newRegExp (''^'' @ [BSL] @ ''s*'' @ escapeWith ?cls (startOf tokens)
                   @ escapeWith ?cls label @ '':'' @ [BSL] @ ''s*(.+)''
                   @ escapeWith ?cls (endOf tokens) @ [BSL] @ ''r?'' @ [BSL] @ ''n?'')"
    by (cases tokens)
       (simp_all add: headerRegex_2_def reEscape_def startOf_def endOf_def escapeWith_Nil Let_def)
  also have "\<dots> = Inr (headerAst tokens label)"
    unfolding headerAst_def by (rule header_pattern [OF escapeClass_reEscape])
  finally show ?thesis .
qed

section \<open>What the header pattern matches\<close>

lemma concat_map_concat_map:
  "concat (map f (concat (map g xs))) = concat (map (\<lambda>x. concat (map f (g x))) xs)"
  by (induction xs) simp_all

lemma rmatch_seq_append:
  "rmatch (seq (a @ b)) x = concat (map (rmatch (seq b)) (rmatch (seq a) x))"
proof (induction a arbitrary: x)
  case Nil
  show ?case by simp
next
  case (Cons t a)
  have "rmatch (seq (a @ b)) = (\<lambda>x. concat (map (rmatch (seq b)) (rmatch (seq a) x)))"
    by (rule ext) (rule Cons.IH)
  then show ?case
    by (simp add: concat_map_concat_map)
qed

lemma in_rmatch_Cons:
  "y \<in> set (rmatch (seq (t # ts)) x) \<longleftrightarrow> (\<exists>z \<in> set (rmatch t x). y \<in> set (rmatch (seq ts) z))"
  by auto

lemma in_rmatch_Bol:
  "y \<in> set (rmatch (seq (Bol # ts)) (p, t, cs)) \<longleftrightarrow> p = [] \<and> y \<in> set (rmatch (seq ts) (p, t, cs))"
  by auto

lemma in_consume:
  "z \<in> set (consume P (p, t, cs)) \<longleftrightarrow> (\<exists>c t1. t = c # t1 \<and> P c \<and> z = (p @ [c], t1, cs))"
  by (cases t) auto

lemma in_rmatch_Chr:
  "y \<in> set (rmatch (seq (Chr c # ts)) (p, t, cs)) \<longleftrightarrow>
     (\<exists>t1. t = c # t1 \<and> y \<in> set (rmatch (seq ts) (p @ [c], t1, cs)))"
  by (cases t) auto

lemma in_rmatch_literal:
  "y \<in> set (rmatch (seq (map Chr w @ ts)) (p, t, cs)) \<longleftrightarrow>
     (\<exists>t1. t = w @ t1 \<and> y \<in> set (rmatch (seq ts) (p @ w, t1, cs)))"
proof (induction w arbitrary: p t)
  case Nil
  show ?case by simp
next
  case (Cons c w)
  have "y \<in> set (rmatch (seq (map Chr (c # w) @ ts)) (p, t, cs)) \<longleftrightarrow>
        (\<exists>t1. t = c # t1 \<and> y \<in> set (rmatch (seq (map Chr w @ ts)) (p @ [c], t1, cs)))"
    using in_rmatch_Chr [of y c "map Chr w @ ts" p t cs] by simp
  also have "\<dots> \<longleftrightarrow> (\<exists>t1. t = (c # w) @ t1 \<and> y \<in> set (rmatch (seq ts) (p @ c # w, t1, cs)))"
    by (simp add: Cons.IH) blast
  finally show ?case .
qed

lemma in_rounds_consume:
  "length t \<le> n \<Longrightarrow>
   z \<in> set (rounds n (consume P) (p, t, cs)) \<longleftrightarrow>
     (\<exists>w t1. t = w @ t1 \<and> (\<forall>c \<in> set w. P c) \<and> z = (p @ w, t1, cs))"
proof (induction n arbitrary: p t)
  case 0
  then show ?case by auto
next
  case (Suc n)
  show ?case
  proof (cases t)
    case Nil
    then show ?thesis by auto
  next
    case (Cons c t')
    show ?thesis
    proof (cases "P c")
      case False
      have "(\<exists>w t1. t = w @ t1 \<and> (\<forall>c \<in> set w. P c) \<and> z = (p @ w, t1, cs)) \<longleftrightarrow> z = (p, t, cs)"
      proof
        assume "\<exists>w t1. t = w @ t1 \<and> (\<forall>c \<in> set w. P c) \<and> z = (p @ w, t1, cs)"
        then obtain w t1 where w: "t = w @ t1" "\<forall>c \<in> set w. P c" "z = (p @ w, t1, cs)" by blast
        have "w = []"
        proof (cases w)
          case Nil then show ?thesis .
        next
          case (Cons d w')
          with w Cons \<open>t = c # t'\<close> False show ?thesis by auto
        qed
        with w show "z = (p, t, cs)" by simp
      next
        assume "z = (p, t, cs)"
        then show "\<exists>w t1. t = w @ t1 \<and> (\<forall>c \<in> set w. P c) \<and> z = (p @ w, t1, cs)"
          by (intro exI [of _ "[]"] exI [of _ t]) simp
      qed
      with False Cons show ?thesis by simp
    next
      case True
      from Suc.prems Cons have len: "length t' \<le> n" by simp
      have "z \<in> set (rounds (Suc n) (consume P) (p, t, cs)) \<longleftrightarrow>
            z \<in> set (rounds n (consume P) (p @ [c], t', cs)) \<or> z = (p, t, cs)"
        using True Cons by (auto simp: progress_def)
      also have "\<dots> \<longleftrightarrow> (\<exists>w t1. t' = w @ t1 \<and> (\<forall>c \<in> set w. P c) \<and> z = (p @ [c] @ w, t1, cs)) \<or> z = (p, t, cs)"
        by (simp add: Suc.IH [OF len])
      also have "\<dots> \<longleftrightarrow> (\<exists>w t1. t = w @ t1 \<and> (\<forall>c \<in> set w. P c) \<and> z = (p @ w, t1, cs))"
      proof
        assume "(\<exists>w t1. t' = w @ t1 \<and> (\<forall>c \<in> set w. P c) \<and> z = (p @ [c] @ w, t1, cs)) \<or> z = (p, t, cs)"
        then show "\<exists>w t1. t = w @ t1 \<and> (\<forall>c \<in> set w. P c) \<and> z = (p @ w, t1, cs)"
        proof
          assume "\<exists>w t1. t' = w @ t1 \<and> (\<forall>c \<in> set w. P c) \<and> z = (p @ [c] @ w, t1, cs)"
          then obtain w t1 where "t' = w @ t1" "\<forall>c \<in> set w. P c" "z = (p @ [c] @ w, t1, cs)" by blast
          with True Cons show ?thesis
            by (intro exI [of _ "c # w"] exI [of _ t1]) simp
        next
          assume "z = (p, t, cs)"
          then show ?thesis by (intro exI [of _ "[]"] exI [of _ t]) simp
        qed
      next
        assume "\<exists>w t1. t = w @ t1 \<and> (\<forall>c \<in> set w. P c) \<and> z = (p @ w, t1, cs)"
        then obtain w t1 where w: "t = w @ t1" "\<forall>c \<in> set w. P c" "z = (p @ w, t1, cs)" by blast
        show "(\<exists>w t1. t' = w @ t1 \<and> (\<forall>c \<in> set w. P c) \<and> z = (p @ [c] @ w, t1, cs)) \<or> z = (p, t, cs)"
        proof (cases w)
          case Nil
          with w show ?thesis by simp
        next
          case (Cons d w')
          with w \<open>t = c # t'\<close> have "t' = w' @ t1" "\<forall>c \<in> set w'. P c" "z = (p @ [c] @ w', t1, cs)"
            by auto
          then show ?thesis by blast
        qed
      qed
      finally show ?thesis .
    qed
  qed
qed

lemma in_rmatch_Star:
  "y \<in> set (rmatch (seq (Star Space # ts)) (p, t, cs)) \<longleftrightarrow>
     (\<exists>w t1. t = w @ t1 \<and> (\<forall>c \<in> set w. is_space c) \<and> y \<in> set (rmatch (seq ts) (p @ w, t1, cs)))"
proof -
  have "y \<in> set (rmatch (seq (Star Space # ts)) (p, t, cs)) \<longleftrightarrow>
        (\<exists>z \<in> set (rounds (length t) (consume is_space) (p, t, cs)). y \<in> set (rmatch (seq ts) z))"
    by simp
  also have "\<dots> \<longleftrightarrow> (\<exists>w t1. t = w @ t1 \<and> (\<forall>c \<in> set w. is_space c) \<and> y \<in> set (rmatch (seq ts) (p @ w, t1, cs)))"
    unfolding Bex_def in_rounds_consume [OF le_refl] by blast
  finally show ?thesis .
qed

lemma in_rmatch_Plus_Dot:
  "z \<in> set (rmatch (Plus Dot) (p, t, cs)) \<longleftrightarrow>
     (\<exists>w t1. t = w @ t1 \<and> w \<noteq> [] \<and> (\<forall>c \<in> set w. \<not> is_line_terminator c) \<and> z = (p @ w, t1, cs))"
proof (cases t)
  case Nil
  then show ?thesis by auto
next
  case (Cons c t')
  show ?thesis
  proof (cases "is_line_terminator c")
    case True
    have "\<not> (\<exists>w t1. t = w @ t1 \<and> w \<noteq> [] \<and> (\<forall>c \<in> set w. \<not> is_line_terminator c) \<and> z = (p @ w, t1, cs))"
    proof
      assume "\<exists>w t1. t = w @ t1 \<and> w \<noteq> [] \<and> (\<forall>c \<in> set w. \<not> is_line_terminator c) \<and> z = (p @ w, t1, cs)"
      then obtain w t1 where w: "t = w @ t1" "w \<noteq> []" "\<forall>c \<in> set w. \<not> is_line_terminator c" by blast
      then obtain d w' where "w = d # w'" by (cases w) auto
      with w Cons True show False by auto
    qed
    with True Cons show ?thesis by simp
  next
    case False
    have "z \<in> set (rmatch (Plus Dot) (p, t, cs)) \<longleftrightarrow>
          z \<in> set (rounds (length t') (consume (\<lambda>d. \<not> is_line_terminator d)) (p @ [c], t', cs))"
      using False Cons by simp
    also have "\<dots> \<longleftrightarrow> (\<exists>w t1. t' = w @ t1 \<and> (\<forall>c \<in> set w. \<not> is_line_terminator c) \<and> z = (p @ [c] @ w, t1, cs))"
      using in_rounds_consume [of t' "length t'" z "\<lambda>d. \<not> is_line_terminator d" "p @ [c]" cs] by simp
    also have "\<dots> \<longleftrightarrow> (\<exists>w t1. t = w @ t1 \<and> w \<noteq> [] \<and> (\<forall>c \<in> set w. \<not> is_line_terminator c) \<and> z = (p @ w, t1, cs))"
    proof
      assume "\<exists>w t1. t' = w @ t1 \<and> (\<forall>c \<in> set w. \<not> is_line_terminator c) \<and> z = (p @ [c] @ w, t1, cs)"
      then obtain w t1 where "t' = w @ t1" "\<forall>c \<in> set w. \<not> is_line_terminator c" "z = (p @ [c] @ w, t1, cs)" by blast
      with False Cons show "\<exists>w t1. t = w @ t1 \<and> w \<noteq> [] \<and> (\<forall>c \<in> set w. \<not> is_line_terminator c) \<and> z = (p @ w, t1, cs)"
        by (intro exI [of _ "c # w"] exI [of _ t1]) simp
    next
      assume "\<exists>w t1. t = w @ t1 \<and> w \<noteq> [] \<and> (\<forall>c \<in> set w. \<not> is_line_terminator c) \<and> z = (p @ w, t1, cs)"
      then obtain w t1 where w: "t = w @ t1" "w \<noteq> []" "\<forall>c \<in> set w. \<not> is_line_terminator c" "z = (p @ w, t1, cs)" by blast
      then obtain d w' where "w = d # w'" by (cases w) auto
      with w Cons have "t' = w' @ t1" "\<forall>c \<in> set w'. \<not> is_line_terminator c" "z = (p @ [c] @ w', t1, cs)"
        by auto
      then show "\<exists>w t1. t' = w @ t1 \<and> (\<forall>c \<in> set w. \<not> is_line_terminator c) \<and> z = (p @ [c] @ w, t1, cs)"
        by blast
    qed
    finally show ?thesis .
  qed
qed

lemma in_rmatch_Group:
  "y \<in> set (rmatch (seq (Group k (seq [Plus Dot]) # ts)) (p, t, cs)) \<longleftrightarrow>
     (\<exists>w t1. t = w @ t1 \<and> w \<noteq> [] \<and> (\<forall>c \<in> set w. \<not> is_line_terminator c) \<and>
              y \<in> set (rmatch (seq ts) (p @ w, t1, (k, w) # cs)))"
proof -
  have g: "set (rmatch (Group k (seq [Plus Dot])) (p, t, cs))
         = capture k (p, t, cs) ` set (rmatch (Plus Dot) (p, t, cs))"
    by simp
  have "y \<in> set (rmatch (seq (Group k (seq [Plus Dot]) # ts)) (p, t, cs)) \<longleftrightarrow>
        (\<exists>z \<in> set (rmatch (Plus Dot) (p, t, cs)). y \<in> set (rmatch (seq ts) (capture k (p, t, cs) z)))"
    unfolding in_rmatch_Cons g by blast
  also have "\<dots> \<longleftrightarrow> (\<exists>w t1. t = w @ t1 \<and> w \<noteq> [] \<and> (\<forall>c \<in> set w. \<not> is_line_terminator c) \<and>
              y \<in> set (rmatch (seq ts) (capture k (p, t, cs) (p @ w, t1, cs))))"
    unfolding Bex_def in_rmatch_Plus_Dot by blast
  also have "\<dots> \<longleftrightarrow> (\<exists>w t1. t = w @ t1 \<and> w \<noteq> [] \<and> (\<forall>c \<in> set w. \<not> is_line_terminator c) \<and>
              y \<in> set (rmatch (seq ts) (p @ w, t1, (k, w) # cs)))"
    by (simp add: capture_def)
  finally show ?thesis .
qed

lemma CR_neq_LF [simp]: "CR \<noteq> LF" "LF \<noteq> CR"
  by (simp_all add: CR_def LF_def)

lemma in_rmatch_Opt_Chr:
  "y \<in> set (rmatch (seq (Opt (Chr c) # ts)) (p, t, cs)) \<longleftrightarrow>
     y \<in> set (rmatch (seq ts) (p, t, cs)) \<or>
     (\<exists>t1. t = c # t1 \<and> y \<in> set (rmatch (seq ts) (p @ [c], t1, cs)))"
  by (cases t) (auto simp: progress_def)

lemma in_rmatch_eol:
  "y \<in> set (rmatch (seq [Opt (Chr CR), Opt (Chr LF)]) (p, t, cs)) \<longleftrightarrow>
     (\<exists>e t1. t = e @ t1 \<and> e \<in> {[], [CR], [LF], [CR, LF]} \<and> y = (p @ e, t1, cs))"
  unfolding in_rmatch_Opt_Chr by (cases t) auto

lemma headerAst_unfold:
  "headerAst tokens label
     = seq (Bol # Star Space # (map Chr (startOf tokens) @ (map Chr label
         @ Chr (CHR '':'') # Star Space # Group 1 (seq [Plus Dot])
         # (map Chr (endOf tokens) @ [Opt (Chr CR), Opt (Chr LF)]))))"
  by (simp add: headerAst_def)

lemma header_results_sound:
  assumes "(p', t', cs') \<in> set (rmatch (headerAst tokens label) ([], s, []))"
  shows "\<exists>ws1 ws2 path e.
        p' = ws1 @ startOf tokens @ label @ '':'' @ ws2 @ path @ endOf tokens @ e \<and>
        s = p' @ t' \<and>
        (\<forall>c \<in> set ws1. is_space c) \<and> (\<forall>c \<in> set ws2. is_space c) \<and>
        path \<noteq> [] \<and> (\<forall>c \<in> set path. \<not> is_line_terminator c) \<and>
        e \<in> {[], [CR], [LF], [CR, LF]} \<and> cs' = [(1, path)]"
proof -
  let ?y = "(p', t', cs')"
  let ?r5 = "[Opt (Chr CR), Opt (Chr LF)]"
  let ?r4 = "map Chr (endOf tokens) @ ?r5"
  let ?r3 = "Group 1 (seq [Plus Dot]) # ?r4"
  let ?r2 = "Star Space # ?r3"
  let ?r1 = "Chr (CHR '':'') # ?r2"
  from assms have "?y \<in> set (rmatch (seq (Star Space # (map Chr (startOf tokens) @ (map Chr label @ ?r1)))) ([], s, []))"
    unfolding headerAst_unfold in_rmatch_Bol by simp
  then obtain ws1 t1 where 1: "s = ws1 @ t1" "\<forall>c \<in> set ws1. is_space c"
    and a: "?y \<in> set (rmatch (seq (map Chr (startOf tokens) @ (map Chr label @ ?r1))) ([] @ ws1, t1, []))"
    unfolding in_rmatch_Star by blast
  from a obtain t2 where 2: "t1 = startOf tokens @ t2"
    and b: "?y \<in> set (rmatch (seq (map Chr label @ ?r1)) (([] @ ws1) @ startOf tokens, t2, []))"
    unfolding in_rmatch_literal by blast
  from b obtain t3 where 3: "t2 = label @ t3"
    and c: "?y \<in> set (rmatch (seq ?r1) ((([] @ ws1) @ startOf tokens) @ label, t3, []))"
    unfolding in_rmatch_literal by blast
  from c obtain t4 where 4: "t3 = CHR '':'' # t4"
    and d: "?y \<in> set (rmatch (seq ?r2) (((([] @ ws1) @ startOf tokens) @ label) @ '':'', t4, []))"
    unfolding in_rmatch_Chr by blast
  from d obtain ws2 t5 where 5: "t4 = ws2 @ t5" "\<forall>c \<in> set ws2. is_space c"
    and e: "?y \<in> set (rmatch (seq ?r3) ((((([] @ ws1) @ startOf tokens) @ label) @ '':'') @ ws2, t5, []))"
    unfolding in_rmatch_Star by blast
  from e obtain path t6 where 6: "t5 = path @ t6" "path \<noteq> []" "\<forall>c \<in> set path. \<not> is_line_terminator c"
    and f: "?y \<in> set (rmatch (seq ?r4) (((((([] @ ws1) @ startOf tokens) @ label) @ '':'') @ ws2) @ path, t6, [(1, path)]))"
    unfolding in_rmatch_Group by blast
  from f obtain t7 where 7: "t6 = endOf tokens @ t7"
    and g: "?y \<in> set (rmatch (seq ?r5) ((((((([] @ ws1) @ startOf tokens) @ label) @ '':'') @ ws2) @ path) @ endOf tokens, t7, [(1, path)]))"
    unfolding in_rmatch_literal by blast
  from g obtain e t8 where 8: "t7 = e @ t8" "e \<in> {[], [CR], [LF], [CR, LF]}"
    and h: "?y = (((((((([] @ ws1) @ startOf tokens) @ label) @ '':'') @ ws2) @ path) @ endOf tokens) @ e, t8, [(1, path)])"
    unfolding in_rmatch_eol by blast
  from h have p: "p' = ws1 @ startOf tokens @ label @ '':'' @ ws2 @ path @ endOf tokens @ e"
    and t: "t' = t8" and cs: "cs' = [(1, path)]"
    by simp_all
  have "s = p' @ t'"
    using 1(1) 2 3 4 5(1) 6(1) 7 8(1) p t by simp
  with p cs 1(2) 5(2) 6(2,3) 8(2) show ?thesis by blast
qed

lemma header_results_complete:
  assumes "\<forall>c \<in> set ws1. is_space c" "\<forall>c \<in> set ws2. is_space c"
    "path \<noteq> []" "\<forall>c \<in> set path. \<not> is_line_terminator c" "e \<in> {[], [CR], [LF], [CR, LF]}"
  shows "(ws1 @ startOf tokens @ label @ '':'' @ ws2 @ path @ endOf tokens @ e, t', [(1, path)])
         \<in> set (rmatch (headerAst tokens label)
                  ([], ws1 @ startOf tokens @ label @ '':'' @ ws2 @ path @ endOf tokens @ e @ t', []))"
proof -
  let ?r5 = "[Opt (Chr CR), Opt (Chr LF)]"
  let ?r4 = "map Chr (endOf tokens) @ ?r5"
  let ?r3 = "Group 1 (seq [Plus Dot]) # ?r4"
  let ?r2 = "Star Space # ?r3"
  let ?r1 = "Chr (CHR '':'') # ?r2"
  let ?q2 = "([] @ ws1) @ startOf tokens"
  let ?q3 = "?q2 @ label"
  let ?q4 = "?q3 @ [CHR '':'']"
  let ?q5 = "?q4 @ ws2"
  let ?q6 = "?q5 @ path"
  let ?q7 = "?q6 @ endOf tokens"
  let ?y = "(?q7 @ e, t', [(1, path)])"
  have h: "?y \<in> set (rmatch (seq ?r5) (?q7, e @ t', [(1, path)]))"
    by (rule iffD2 [OF in_rmatch_eol], rule exI [of _ e], rule exI [of _ t'])
       (intro conjI refl assms(5))
  have g: "?y \<in> set (rmatch (seq ?r4) (?q6, endOf tokens @ e @ t', [(1, path)]))"
    by (rule iffD2 [OF in_rmatch_literal], rule exI [of _ "e @ t'"]) (intro conjI refl h)
  have f: "?y \<in> set (rmatch (seq ?r3) (?q5, path @ endOf tokens @ e @ t', []))"
    by (rule iffD2 [OF in_rmatch_Group], rule exI [of _ path],
        rule exI [of _ "endOf tokens @ e @ t'"])
       (intro conjI refl assms(3) assms(4) g)
  have e: "?y \<in> set (rmatch (seq ?r2) (?q4, ws2 @ path @ endOf tokens @ e @ t', []))"
    by (rule iffD2 [OF in_rmatch_Star], rule exI [of _ ws2],
        rule exI [of _ "path @ endOf tokens @ e @ t'"])
       (intro conjI refl assms(2) f)
  have d: "?y \<in> set (rmatch (seq ?r1) (?q3, CHR '':'' # ws2 @ path @ endOf tokens @ e @ t', []))"
    by (rule iffD2 [OF in_rmatch_Chr], rule exI [of _ "ws2 @ path @ endOf tokens @ e @ t'"])
       (intro conjI refl e)
  have c: "?y \<in> set (rmatch (seq (map Chr label @ ?r1))
              (?q2, label @ CHR '':'' # ws2 @ path @ endOf tokens @ e @ t', []))"
    by (rule iffD2 [OF in_rmatch_literal],
        rule exI [of _ "CHR '':'' # ws2 @ path @ endOf tokens @ e @ t'"])
       (intro conjI refl d)
  have b: "?y \<in> set (rmatch (seq (map Chr (startOf tokens) @ (map Chr label @ ?r1)))
              ([] @ ws1, startOf tokens @ label @ CHR '':'' # ws2 @ path @ endOf tokens @ e @ t', []))"
    by (rule iffD2 [OF in_rmatch_literal],
        rule exI [of _ "label @ CHR '':'' # ws2 @ path @ endOf tokens @ e @ t'"])
       (intro conjI refl c)
  have a: "?y \<in> set (rmatch (seq (Star Space # (map Chr (startOf tokens) @ (map Chr label @ ?r1))))
              ([], ws1 @ startOf tokens @ label @ CHR '':'' # ws2 @ path @ endOf tokens @ e @ t', []))"
    by (rule iffD2 [OF in_rmatch_Star], rule exI [of _ ws1],
        rule exI [of _ "startOf tokens @ label @ CHR '':'' # ws2 @ path @ endOf tokens @ e @ t'"])
       (intro conjI refl assms(1) b)
  have final: "?y \<in> set (rmatch (headerAst tokens label)
              ([], ws1 @ startOf tokens @ label @ CHR '':'' # ws2 @ path @ endOf tokens @ e @ t', []))"
    unfolding headerAst_unfold
    by (rule iffD2 [OF in_rmatch_Bol]) (intro conjI refl a)
  have y: "?y = (ws1 @ startOf tokens @ label @ '':'' @ ws2 @ path @ endOf tokens @ e, t', [(1, path)])"
    by simp
  have i: "ws1 @ startOf tokens @ label @ CHR '':'' # ws2 @ path @ endOf tokens @ e @ t'
     = ws1 @ startOf tokens @ label @ '':'' @ ws2 @ path @ endOf tokens @ e @ t'"
    by simp
  show ?thesis
    by (subst y [symmetric], subst i [symmetric]) (rule final)
qed

text \<open>
  Rounds beyond the number of characters left add nothing: the bound on the rounds of a
  repetition cuts no match off.
\<close>

lemma rounds_surplus:
  assumes "\<And>x y. y \<in> set (f x) \<Longrightarrow> length (fst (snd y)) \<le> length (fst (snd x))"
  shows "length (fst (snd x)) \<le> n \<Longrightarrow> rounds (Suc n) f x = rounds n f x"
proof (induction n arbitrary: x)
  case 0
  then have "filter (progress x) (f x) = []"
    by (simp add: progress_def filter_empty_conv)
  then show ?case by simp
next
  case (Suc n)
  let ?F = "filter (progress x) (f x)"
  have eq: "map (rounds (Suc n) f) ?F = map (rounds n f) ?F"
  proof (rule map_cong [OF refl])
    fix y
    assume "y \<in> set ?F"
    then have "length (fst (snd y)) < length (fst (snd x))" by (simp add: progress_def)
    with Suc.prems have "length (fst (snd y)) \<le> n" by simp
    then show "rounds (Suc n) f y = rounds n f y" by (rule Suc.IH)
  qed
  have "rounds (Suc (Suc n)) f x = concat (map (rounds (Suc n) f) ?F) @ [x]"
    by (rule rounds.simps(2))
  also have "\<dots> = concat (map (rounds n f) ?F) @ [x]"
    by (simp only: eq)
  also have "\<dots> = rounds (Suc n) f x"
    by (rule rounds.simps(2) [symmetric])
  finally show ?case .
qed

lemma consume_shorter:
  "y \<in> set (consume P x) \<Longrightarrow> length (fst (snd y)) \<le> length (fst (snd x))"
proof -
  assume a: "y \<in> set (consume P x)"
  obtain p t cs where x: "x = (p, t, cs)" by (cases x) auto
  with a show ?thesis by (cases t) (auto split: if_splits)
qed

lemma rounds_consume_enough:
  "length t \<le> n \<Longrightarrow> rounds n (consume P) (p, t, cs) = rounds (length t) (consume P) (p, t, cs)"
proof (induction n)
  case 0
  then show ?case by simp
next
  case (Suc n)
  show ?case
  proof (cases "length t = Suc n")
    case True
    then show ?thesis by simp
  next
    case False
    with Suc.prems have l: "length t \<le> n" by simp
    then have l': "length (fst (snd (p, t, cs))) \<le> n" by simp
    have "rounds (Suc n) (consume P) (p, t, cs) = rounds n (consume P) (p, t, cs)"
      by (rule rounds_surplus [OF consume_shorter l'])
    with Suc.IH [OF l] show ?thesis by simp
  qed
qed

section \<open>What exec reports for the header pattern\<close>

lemma rmatch_header_not_at_start:
  "p \<noteq> [] \<Longrightarrow> rmatch (headerAst tokens label) (p, t, cs) = []"
  by (simp add: headerAst_unfold)

lemma exec_at_later:
  "\<forall>i \<in> set js. 0 < i \<and> i \<le> length s \<Longrightarrow> exec_at (headerAst tokens label) s js = None"
proof (induction js)
  case Nil
  show ?case by simp
next
  case (Cons i js)
  then have "take i s \<noteq> []" by auto
  then have "rmatch (headerAst tokens label) (take i s, drop i s, []) = []"
    by (rule rmatch_header_not_at_start)
  with Cons show ?case by simp
qed

lemma exec_header:
  "exec (headerAst tokens label) s =
     (case rmatch (headerAst tokens label) ([], s, []) of
        [] \<Rightarrow> None
      | y # ys \<Rightarrow> Some \<lparr>index = 0, matched = fst y, groups = snd (snd y)\<rparr>)"
proof -
  have "[0..<Suc (length s)] = 0 # [Suc 0..<Suc (length s)]"
    by (rule upt_conv_Cons) simp
  then have e: "exec (headerAst tokens label) s
      = exec_at (headerAst tokens label) s (0 # [Suc 0..<Suc (length s)])"
    unfolding exec_def by (simp only:)
  have l: "exec_at (headerAst tokens label) s [Suc 0..<Suc (length s)] = None"
    by (rule exec_at_later) auto
  show ?thesis
    unfolding e by (simp add: l split: list.splits del: upt_Suc)
qed

lemma exec_header_Some:
  assumes "exec (headerAst tokens label) s = Some m"
  shows "index m = 0 \<and> (matched m, drop (length (matched m)) s, groups m) \<in> set (rmatch (headerAst tokens label) ([], s, []))
         \<and> (\<exists>ys. rmatch (headerAst tokens label) ([], s, []) = (matched m, drop (length (matched m)) s, groups m) # ys)"
proof -
  from assms obtain y ys where y: "rmatch (headerAst tokens label) ([], s, []) = y # ys"
    and m: "m = \<lparr>index = 0, matched = fst y, groups = snd (snd y)\<rparr>"
    unfolding exec_header by (auto split: list.splits)
  obtain p t cs where yy: "y = (p, t, cs)" by (cases y) auto
  have "(p, t, cs) \<in> set (rmatch (headerAst tokens label) ([], s, []))"
    using y yy by simp
  then have "s = p @ t" using header_results_sound by blast
  then have "t = drop (length p) s" by simp
  with y yy m show ?thesis by simp
qed

lemma exec_header_sound:
  assumes "exec (headerAst tokens label) s = Some m"
  shows "index m = 0 \<and>
     (\<exists>ws1 ws2 path e rest.
        matched m = ws1 @ startOf tokens @ label @ '':'' @ ws2 @ path @ endOf tokens @ e \<and>
        s = matched m @ rest \<and>
        (\<forall>c \<in> set ws1. is_space c) \<and> (\<forall>c \<in> set ws2. is_space c) \<and>
        path \<noteq> [] \<and> (\<forall>c \<in> set path. \<not> is_line_terminator c) \<and>
        e \<in> {[], [CR], [LF], [CR, LF]} \<and> group1 m = path)"
proof -
  from exec_header_Some [OF assms]
  have i: "index m = 0"
    and r: "(matched m, drop (length (matched m)) s, groups m) \<in> set (rmatch (headerAst tokens label) ([], s, []))"
    by blast+
  from header_results_sound [OF r] obtain ws1 ws2 path e where
    h: "matched m = ws1 @ startOf tokens @ label @ '':'' @ ws2 @ path @ endOf tokens @ e"
       "s = matched m @ drop (length (matched m)) s"
       "\<forall>c \<in> set ws1. is_space c" "\<forall>c \<in> set ws2. is_space c"
       "path \<noteq> []" "\<forall>c \<in> set path. \<not> is_line_terminator c"
       "e \<in> {[], [CR], [LF], [CR, LF]}" "groups m = [(1, path)]"
    by blast
  from h(8) have "group1 m = path" by (simp add: group1_def)
  with i h show ?thesis by blast
qed

lemma exec_header_complete:
  assumes "\<forall>c \<in> set ws1. is_space c" "\<forall>c \<in> set ws2. is_space c"
    "path \<noteq> []" "\<forall>c \<in> set path. \<not> is_line_terminator c" "e \<in> {[], [CR], [LF], [CR, LF]}"
  shows "exec (headerAst tokens label)
           (ws1 @ startOf tokens @ label @ '':'' @ ws2 @ path @ endOf tokens @ e @ rest) \<noteq> None"
proof -
  from header_results_complete [OF assms, of tokens label rest]
  have "rmatch (headerAst tokens label)
          ([], ws1 @ startOf tokens @ label @ '':'' @ ws2 @ path @ endOf tokens @ e @ rest, []) \<noteq> []"
    by (metis empty_iff empty_set)
  then show ?thesis
    unfolding exec_header by (simp split: list.splits)
qed

lemma concat_map_head:
  assumes "concat (map g zs) = y # ys" "\<And>z. g z \<noteq> []"
  shows "\<exists>z \<in> set zs. y = hd (g z)"
proof (cases zs)
  case Nil
  with assms show ?thesis by simp
next
  case (Cons z zs')
  from assms(2) obtain a as where "g z = a # as" by (cases "g z") auto
  with assms(1) Cons show ?thesis by auto
qed

lemma eol_greedy:
  "rmatch (seq [Opt (Chr CR), Opt (Chr LF)]) (p, t, cs) \<noteq> [] \<and>
   \<not> (\<exists>a b. fst (hd (rmatch (seq [Opt (Chr CR), Opt (Chr LF)]) (p, t, cs))) = a @ [CR] \<and>
             fst (snd (hd (rmatch (seq [Opt (Chr CR), Opt (Chr LF)]) (p, t, cs)))) = LF # b)"
proof (cases t)
  case Nil
  then show ?thesis by simp
next
  case (Cons c t1)
  show ?thesis
  proof (cases t1)
    case Nil
    with Cons show ?thesis by (auto simp: progress_def)
  next
    case (Cons d t2)
    with \<open>t = c # t1\<close> show ?thesis by (auto simp: progress_def)
  qed
qed

lemma headerAst_split:
  "headerAst tokens label
     = seq (([Bol, Star Space] @ map Chr (startOf tokens) @ map Chr label
          @ [Chr (CHR '':''), Star Space, Group 1 (seq [Plus Dot])]
          @ map Chr (endOf tokens)) @ [Opt (Chr CR), Opt (Chr LF)])"
  by (simp add: headerAst_def)

lemma header_first_not_inside_crlf:
  assumes "rmatch (headerAst tokens label) x = (p, t, cs) # ys"
  shows "\<not> (\<exists>a b. p = a @ [CR] \<and> t = LF # b)"
proof -
  let ?g = "rmatch (seq [Opt (Chr CR), Opt (Chr LF)])"
  have ne: "?g z \<noteq> []" for z
    using eol_greedy [of "fst z" "fst (snd z)" "snd (snd z)"] by simp
  from assms obtain zs where "concat (map ?g zs) = (p, t, cs) # ys"
    unfolding headerAst_split rmatch_seq_append by blast
  from concat_map_head [OF this ne] obtain z where "(p, t, cs) = hd (?g z)" by blast
  with eol_greedy [of "fst z" "fst (snd z)" "snd (snd z)"] show ?thesis
    by (metis fst_conv prod.collapse snd_conv)
qed

section \<open>Lines, offsets and positions\<close>

lemma startsWith_prefix: "startsWith s p = prefix p s"
  by (induction s p rule: startsWith.induct) auto

lemma insertionLoop_eq:
  "insertionLoop doc ln = ln + length (takeWhile isBlank (drop ln (lines doc)))"
proof (induction doc ln rule: insertionLoop.induct)
  case (1 doc ln)
  show ?case
  proof (cases "ln < lineCount doc \<and> trim (lineAt doc ln) = []")
    case True
    then have d: "drop ln (lines doc) = lines doc ! ln # drop (Suc ln) (lines doc)"
      by (simp add: lineCount_def Cons_nth_drop_Suc)
    from True have b: "isBlank (lines doc ! ln)"
      by (simp add: isBlank_def lineAt_def)
    have "insertionLoop doc ln = insertionLoop doc (Suc ln)"
      using True by (subst insertionLoop.simps) simp
    also have "\<dots> = Suc ln + length (takeWhile isBlank (drop (Suc ln) (lines doc)))"
      using True by (rule "1.IH")
    finally show ?thesis using d b by simp
  next
    case False
    have i: "insertionLoop doc ln = ln"
      by (subst insertionLoop.simps) (simp only: False if_False)
    have "takeWhile isBlank (drop ln (lines doc)) = []"
    proof (cases "ln < lineCount doc")
      case True
      with False have "\<not> isBlank (lines doc ! ln)"
        by (simp add: isBlank_def lineAt_def)
      moreover from True have "drop ln (lines doc) = lines doc ! ln # drop (Suc ln) (lines doc)"
        by (simp add: lineCount_def Cons_nth_drop_Suc)
      ultimately show ?thesis by simp
    next
      case False
      then show ?thesis by (simp add: lineCount_def)
    qed
    with i show ?thesis by simp
  qed
qed

lemma offsetIn_origin: "offsetIn n ls 0 0 = 0"
  by (induction n ls "0::nat" "0::nat" rule: offsetIn.induct) simp_all

lemma offsetIn_end:
  "length ls \<le> k \<Longrightarrow> offsetIn (length nl) ls k 0 = length (joinLines nl ls)"
proof (induction nl ls arbitrary: k rule: joinLines.induct)
  case (1 nl)
  show ?case by simp
next
  case (2 nl l)
  then show ?case by simp
next
  case (3 nl l l2 ls)
  then obtain k' where k: "k = Suc k'" "length (l2 # ls) \<le> k'"
    by (cases k) auto
  with "3.IH" [of k'] show ?case by simp
qed

lemma offsetIn_line_start:
  "k < length ls \<Longrightarrow>
   take (offsetIn (length nl) ls k 0) (joinLines nl ls) = concat (map (\<lambda>l. l @ nl) (take k ls))"
proof (induction nl ls arbitrary: k rule: joinLines.induct)
  case (1 nl)
  then show ?case by simp
next
  case (2 nl l)
  then show ?case by simp
next
  case (3 nl l l2 ls)
  show ?case
  proof (cases k)
    case 0
    then show ?thesis by simp
  next
    case (Suc k')
    with "3.prems" have "k' < length (l2 # ls)" by simp
    from "3.IH" [OF this] Suc show ?thesis by simp
  qed
qed

lemma positionIn_line_ge: "k \<le> line (positionIn n ls k off)"
  by (induction n ls k off rule: positionIn.induct) (auto split: if_splits)

lemma position_roundtrip:
  assumes "joinLines nl ls = a @ b" "nl = [LF] \<or> nl = [CR, LF]"
    "\<not> (\<exists>a' b'. a = a' @ [CR] \<and> b = LF # b')"
  shows "offsetIn (length nl) ls (line (positionIn (length nl) ls k (length a)) - k)
           (character (positionIn (length nl) ls k (length a))) = length a"
  using assms
proof (induction nl ls arbitrary: a k rule: joinLines.induct)
  case (1 nl)
  then show ?case by simp
next
  case (2 nl l)
  then have "length a \<le> length l"
    by (metis joinLines.simps(2) length_append le_add1)
  then show ?case by simp
next
  case (3 nl l l2 ls)
  let ?J = "joinLines nl (l2 # ls)"
  from "3.prems"(1) have tx: "l @ nl @ ?J = a @ b" by simp
  show ?case
  proof (cases "length a < length l + length nl")
    case True
    have "length a \<le> length l"
    proof (rule ccontr)
      assume "\<not> length a \<le> length l"
      with True "3.prems"(2) have nl: "nl = [CR, LF]" and la: "length a = Suc (length l)"
        by auto
      from tx have "take (length a) (l @ nl @ ?J) = a" by simp
      with nl la have a: "a = l @ [CR]" by simp
      with tx nl have "b = LF # ?J" by simp
      with a "3.prems"(3) show False by blast
    qed
    with True show ?thesis by simp
  next
    case False
    define a2 where "a2 = drop (length l + length nl) a"
    from tx have "take (length l + length nl) (a @ b) = l @ nl"
      by (metis append_assoc append_eq_conv_conj length_append)
    with False have "take (length l + length nl) a = l @ nl" by simp
    then have a: "a = l @ nl @ a2"
      unfolding a2_def by (metis append_assoc append_take_drop_id)
    with tx have J: "?J = a2 @ b" by simp
    have no: "\<not> (\<exists>a' b'. a2 = a' @ [CR] \<and> b = LF # b')"
    proof
      assume "\<exists>a' b'. a2 = a' @ [CR] \<and> b = LF # b'"
      then obtain a' b' where "a2 = a' @ [CR]" "b = LF # b'" by blast
      with a have "a = (l @ nl @ a') @ [CR] \<and> b = LF # b'" by simp
      with "3.prems"(3) show False by blast
    qed
    let ?pos = "positionIn (length nl) (l2 # ls) (Suc k) (length a2)"
    have ih: "offsetIn (length nl) (l2 # ls) (line ?pos - Suc k) (character ?pos) = length a2"
      by (rule "3.IH" [OF J "3.prems"(2) no])
    have ge: "Suc k \<le> line ?pos" by (rule positionIn_line_ge)
    then have j: "line ?pos - k = Suc (line ?pos - Suc k)" by arith
    have p: "positionIn (length nl) (l # l2 # ls) k (length a) = ?pos"
      using False a by simp
    show ?thesis
      unfolding p j using ih a by simp
  qed
qed

section \<open>The first lines, the end of the match, and the decision\<close>

lemma nlOf_cases: "nlOf e = [LF] \<or> nlOf e = [CR, LF]"
  by (simp add: nlOf_def)

lemma firstChunk_take:
  "firstChunk doc
     = take (offsetIn (length (nlOf (eol doc))) (lines doc) (min 10 (lineCount doc)) 0) (fullText doc)"
  by (simp add: firstChunk_def getText_def offsetAt_def offsetIn_origin Let_def)

lemma firstChunk_lines:
  "firstChunk doc =
     (if 10 < lineCount doc then concat (map (\<lambda>l. l @ nlOf (eol doc)) (take 10 (lines doc)))
      else fullText doc)"
proof (cases "10 < lineCount doc")
  case True
  then have "min 10 (lineCount doc) = 10" "10 < length (lines doc)"
    by (simp_all add: lineCount_def)
  with True show ?thesis
    unfolding firstChunk_take fullText_def by (simp add: offsetIn_line_start)
next
  case False
  then have "min 10 (lineCount doc) = lineCount doc" by simp
  with False show ?thesis
    unfolding firstChunk_take fullText_def by (simp add: offsetIn_end lineCount_def)
qed

lemma firstChunk_boundary:
  "\<exists>rest. fullText doc = firstChunk doc @ rest \<and> (rest = [] \<or> (\<exists>c. firstChunk doc = c @ [LF]))"
proof (cases "10 < lineCount doc")
  case False
  then have "firstChunk doc = fullText doc" by (simp add: firstChunk_lines)
  then show ?thesis by simp
next
  case True
  let ?k = "offsetIn (length (nlOf (eol doc))) (lines doc) (min 10 (lineCount doc)) 0"
  have p: "fullText doc = firstChunk doc @ drop ?k (fullText doc)"
    unfolding firstChunk_take by simp
  from True have "take 10 (lines doc) \<noteq> []" by (auto simp: lineCount_def)
  then obtain ls l where t: "take 10 (lines doc) = ls @ [l]"
    by (cases "take 10 (lines doc)" rule: rev_cases) auto
  have "nlOf (eol doc) = [] @ [LF] \<or> nlOf (eol doc) = [CR] @ [LF]"
    by (simp add: nlOf_def)
  then obtain n where n: "nlOf (eol doc) = n @ [LF]" by blast
  from True t n have "firstChunk doc = (concat (map (\<lambda>l. l @ nlOf (eol doc)) ls) @ l @ n) @ [LF]"
    by (simp add: firstChunk_lines)
  then have "\<exists>c. firstChunk doc = c @ [LF]" by blast
  with p show ?thesis by blast
qed

lemma offsetAt_origin: "offsetAt doc \<lparr>line = 0, character = 0\<rparr> = 0"
  by (simp add: offsetAt_def offsetIn_origin)

lemma match_end_position:
  assumes "exec (headerAst tokens label) (firstChunk doc) = Some m"
  shows "offsetAt doc (positionAt doc (length (matched m))) = length (matched m) \<and>
         (\<exists>rest. fullText doc = matched m @ rest)"
proof -
  let ?p = "matched m"
  let ?t = "drop (length (matched m)) (firstChunk doc)"
  from exec_header_Some [OF assms] obtain ys where
    r: "(?p, ?t, groups m) \<in> set (rmatch (headerAst tokens label) ([], firstChunk doc, []))"
    and f: "rmatch (headerAst tokens label) ([], firstChunk doc, []) = (?p, ?t, groups m) # ys"
    by blast
  from header_results_sound [OF r] have c: "firstChunk doc = ?p @ ?t" by blast
  from header_first_not_inside_crlf [OF f] have no: "\<not> (\<exists>a b. ?p = a @ [CR] \<and> ?t = LF # b)" .
  from firstChunk_boundary obtain rest where
    full: "fullText doc = firstChunk doc @ rest" and b: "rest = [] \<or> (\<exists>c. firstChunk doc = c @ [LF])"
    by blast
  from full c have j: "joinLines (nlOf (eol doc)) (lines doc) = ?p @ (?t @ rest)"
    by (simp add: fullText_def)
  have no2: "\<not> (\<exists>a' b'. ?p = a' @ [CR] \<and> ?t @ rest = LF # b')"
  proof
    assume "\<exists>a' b'. ?p = a' @ [CR] \<and> ?t @ rest = LF # b'"
    then obtain a' b' where a: "?p = a' @ [CR]" and tb: "?t @ rest = LF # b'" by blast
    show False
    proof (cases "?t")
      case (Cons x xs)
      with tb have "?t = LF # xs" by simp
      with a no show False by blast
    next
      case Nil
      with c have cp: "firstChunk doc = ?p" by simp
      from Nil tb have "rest \<noteq> []" by auto
      with b obtain c' where "firstChunk doc = c' @ [LF]" by blast
      with cp a show False by simp
    qed
  qed
  have "offsetIn (length (nlOf (eol doc))) (lines doc)
          (line (positionIn (length (nlOf (eol doc))) (lines doc) 0 (length ?p)) - 0)
          (character (positionIn (length (nlOf (eol doc))) (lines doc) 0 (length ?p))) = length ?p"
    by (rule position_roundtrip [OF j nlOf_cases no2])
  then have "offsetAt doc (positionAt doc (length ?p)) = length ?p"
    by (simp add: offsetAt_def positionAt_def)
  moreover from j have "fullText doc = ?p @ (?t @ rest)" by (simp add: fullText_def)
  ultimately show ?thesis by blast
qed

lemma ensureHeader_decide:
  assumes "activeTextEditor h = Some (docId doc)" "getCommentTokens (languageId doc) = Inr tokens"
  shows "ensureHeader h doc = Inr (Some (decide tokens (configuredLabel h) (asRelativePath doc) doc))"
  using assms
  by (simp add: ensureHeader_def headerRegex_ast decide_def Let_def split: option.splits)

lemma ensureHeader_2_decide:
  assumes "activeTextEditor h = Some (docId doc)" "getCommentTokens (languageId doc) = Inr tokens"
  shows "ensureHeader_2 h doc = Inr (Some (decide tokens (configuredLabel h) (getRelPathOrAbs h doc) doc))"
  using assms
  by (simp add: ensureHeader_2_def headerRegex_2_ast decide_def Let_def split: option.splits)

lemma ensureHeader_edit_cases:
  assumes "ensureHeader h doc = Inr (Some e)"
  shows "\<exists>tokens. activeTextEditor h = Some (docId doc) \<and> getCommentTokens (languageId doc) = Inr tokens"
  using assms
  by (cases "getCommentTokens (languageId doc)")
     (auto simp: ensureHeader_def Let_def split: if_splits)

lemma ensureHeader_2_edit_cases:
  assumes "ensureHeader_2 h doc = Inr (Some e)"
  shows "\<exists>tokens. activeTextEditor h = Some (docId doc) \<and> getCommentTokens (languageId doc) = Inr tokens"
  using assms
  by (cases "getCommentTokens (languageId doc)")
     (auto simp: ensureHeader_2_def Let_def split: if_splits)

section \<open>What a replacement leaves, and where an insertion goes\<close>

lemma decide_Replace:
  assumes "decide tokens label rel doc = Replace r txt"
  shows "\<exists>ws1 ws2 path e rest.
           fullText doc = (ws1 @ startOf tokens @ label @ '':'' @ ws2 @ path @ endOf tokens @ e) @ rest \<and>
           (\<forall>c \<in> set ws1. is_space c) \<and> (\<forall>c \<in> set ws2. is_space c) \<and>
           path \<noteq> [] \<and> (\<forall>c \<in> set path. \<not> is_line_terminator c) \<and>
           e \<in> {[], [CR], [LF], [CR, LF]} \<and> trim path \<noteq> rel \<and>
           txt = headerText tokens label rel (eol doc) \<and>
           editedText doc (Replace r txt) = txt @ rest"
proof -
  from assms obtain m where m: "exec (headerAst tokens label) (firstChunk doc) = Some m"
    and ne: "trim (group1 m) \<noteq> rel"
    and r: "r = \<lparr>rstart = \<lparr>line = 0, character = 0\<rparr>, rend = positionAt doc (length (matched m))\<rparr>"
    and tx: "txt = headerText tokens label rel (eol doc)"
    by (auto simp: decide_def split: option.splits if_splits)
  from exec_header_sound [OF m] obtain ws1 ws2 path e where
    h: "matched m = ws1 @ startOf tokens @ label @ '':'' @ ws2 @ path @ endOf tokens @ e"
       "\<forall>c \<in> set ws1. is_space c" "\<forall>c \<in> set ws2. is_space c"
       "path \<noteq> []" "\<forall>c \<in> set path. \<not> is_line_terminator c"
       "e \<in> {[], [CR], [LF], [CR, LF]}" "group1 m = path"
    by blast
  from match_end_position [OF m] obtain rest where
    off: "offsetAt doc (positionAt doc (length (matched m))) = length (matched m)"
    and full: "fullText doc = matched m @ rest"
    by blast
  have "editedText doc (Replace r txt) = txt @ drop (length (matched m)) (fullText doc)"
    by (simp add: editedText_def r off offsetAt_origin)
  also have "\<dots> = txt @ rest" by (simp add: full)
  finally have ed: "editedText doc (Replace r txt) = txt @ rest" .
  from ne h(7) have ne': "trim path \<noteq> rel" by simp
  from full h(1) have f: "fullText doc
      = (ws1 @ startOf tokens @ label @ '':'' @ ws2 @ path @ endOf tokens @ e) @ rest"
    by simp
  show ?thesis
    by (rule exI [of _ ws1], rule exI [of _ ws2], rule exI [of _ path], rule exI [of _ e],
        rule exI [of _ rest])
       (intro conjI f h(2) h(3) h(4) h(5) h(6) ne' tx ed)
qed

lemma isBlank_all_space: "isBlank l \<Longrightarrow> \<forall>c \<in> set l. is_space c"
proof -
  assume "isBlank l"
  then have d: "dropWhile is_space (rev (dropWhile is_space l)) = []"
    by (simp add: isBlank_def trim_def)
  have "dropWhile is_space l = []"
  proof (rule ccontr)
    assume n: "dropWhile is_space l \<noteq> []"
    then have "\<not> is_space (hd (dropWhile is_space l))" by (rule hd_dropWhile)
    moreover from n have "hd (dropWhile is_space l) \<in> set (rev (dropWhile is_space l))" by simp
    moreover from d have "\<forall>c \<in> set (rev (dropWhile is_space l)). is_space c"
      by (simp add: dropWhile_eq_Nil_conv)
    ultimately show False by blast
  qed
  then show ?thesis by (simp add: dropWhile_eq_Nil_conv)
qed

lemma isBlank_no_shebang: "isBlank l \<Longrightarrow> \<not> prefix ''#!'' l"
proof
  assume b: "isBlank l" and "prefix ''#!'' l"
  then have "CHR ''#'' \<in> set l" by (auto simp: prefix_def)
  with isBlank_all_space [OF b] have "is_space (CHR ''#'')" by blast
  then show False by (simp add: is_space_def)
qed

lemma insertionPosition_eq:
  "insertionPosition doc =
     \<lparr>line = (let s = (if lines doc \<noteq> [] \<and> prefix ''#!'' (hd (lines doc)) then 1 else 0)
              in s + length (takeWhile isBlank (drop s (lines doc)))),
      character = 0\<rparr>"
proof -
  have "(0 < lineCount doc \<and> startsWith (lineAt doc 0) ''#!'')
      = (lines doc \<noteq> [] \<and> prefix ''#!'' (hd (lines doc)))"
    by (cases "lines doc") (simp_all add: startsWith_prefix lineCount_def lineAt_def)
  then show ?thesis
    unfolding insertionPosition_def insertionLoop_eq by (simp add: Let_def)
qed

lemma drop_offsetIn_line_start:
  "k < length ls \<Longrightarrow>
   drop (offsetIn (length nl) ls k 0) (joinLines nl ls) = joinLines nl (drop k ls)"
proof (induction nl ls arbitrary: k rule: joinLines.induct)
  case (1 nl)
  then show ?case by simp
next
  case (2 nl l)
  then show ?case by simp
next
  case (3 nl l l2 ls)
  show ?case
  proof (cases k)
    case 0
    then show ?thesis by simp
  next
    case (Suc k')
    with "3.prems" have "k' < length (l2 # ls)" by simp
    from "3.IH" [OF this] Suc show ?thesis by simp
  qed
qed

lemma insert_at_line_start:
  assumes "k < lineCount doc"
  shows "editedText doc (Insert \<lparr>line = k, character = 0\<rparr> txt)
     = concat (map (\<lambda>l. l @ nlOf (eol doc)) (take k (lines doc))) @ txt
       @ joinLines (nlOf (eol doc)) (drop k (lines doc))"
proof -
  from assms have k: "k < length (lines doc)" by (simp add: lineCount_def)
  show ?thesis
    by (simp add: editedText_def offsetAt_def fullText_def Let_def
        offsetIn_line_start [OF k] drop_offsetIn_line_start [OF k])
qed

lemma splitLines_clean: "noTerminator l \<Longrightarrow> splitLines l = [l]"
  by (induction l) (auto simp: noTerminator_def is_line_terminator_def)

lemma splitLines_line:
  assumes "noTerminator l" and "nl = [LF] \<or> nl = [CR, LF]"
  shows "splitLines (l @ nl @ t) = l # splitLines t"
  using assms
proof (induction l)
  case Nil
  then show ?case by (cases t) auto
next
  case (Cons c l)
  then show ?case by (auto simp: noTerminator_def is_line_terminator_def)
qed

lemma splitLines_lines:
  assumes "list_all noTerminator xs" and "nl = [LF] \<or> nl = [CR, LF]"
  shows "splitLines (concat (map (\<lambda>l. l @ nl) xs) @ t) = xs @ splitLines t"
  using assms
proof (induction xs)
  case Nil
  then show ?case by simp
next
  case (Cons x xs)
  then have "splitLines (x @ nl @ (concat (map (\<lambda>l. l @ nl) xs) @ t))
      = x # splitLines (concat (map (\<lambda>l. l @ nl) xs) @ t)"
    by (intro splitLines_line) simp_all
  with Cons show ?case by simp
qed

lemma splitLines_joinLines:
  assumes "list_all noTerminator ls" and "ls \<noteq> []" and "nl = [LF] \<or> nl = [CR, LF]"
  shows "splitLines (joinLines nl ls) = ls"
  using assms
proof (induction nl ls rule: joinLines.induct)
  case (1 nl)
  then show ?case by simp
next
  case (2 nl l)
  then show ?case by (simp add: splitLines_clean)
next
  case (3 nl l l2 ls)
  then have "splitLines (l @ nl @ joinLines nl (l2 # ls)) = l # splitLines (joinLines nl (l2 # ls))"
    by (intro splitLines_line) simp_all
  with 3 show ?case by simp
qed

lemma insert_line:
  assumes "k < lineCount doc" and "list_all noTerminator (lines doc)" and "noTerminator hl"
  shows "lines (applyEdit doc (Insert \<lparr>line = k, character = 0\<rparr> (hl @ nlOf (eol doc))))
     = take k (lines doc) @ hl # drop k (lines doc)"
proof -
  let ?nl = "nlOf (eol doc)"
  from assms(1) have k: "k < length (lines doc)" by (simp add: lineCount_def)
  have nl: "?nl = [LF] \<or> ?nl = [CR, LF]" by (rule nlOf_cases)
  from assms(2) have t: "list_all noTerminator (take k (lines doc))"
    and d: "list_all noTerminator (drop k (lines doc))"
    by (auto simp: list_all_iff dest: in_set_takeD in_set_dropD)
  from k have dn: "drop k (lines doc) \<noteq> []" by simp
  have "splitLines (editedText doc (Insert \<lparr>line = k, character = 0\<rparr> (hl @ ?nl)))
      = splitLines (concat (map (\<lambda>l. l @ ?nl) (take k (lines doc)))
          @ (hl @ ?nl @ joinLines ?nl (drop k (lines doc))))"
    by (simp add: insert_at_line_start [OF assms(1)])
  also have "\<dots> = take k (lines doc) @ splitLines (hl @ ?nl @ joinLines ?nl (drop k (lines doc)))"
    by (rule splitLines_lines [OF t nl])
  also have "splitLines (hl @ ?nl @ joinLines ?nl (drop k (lines doc)))
      = hl # splitLines (joinLines ?nl (drop k (lines doc)))"
    by (rule splitLines_line [OF assms(3) nl])
  also have "splitLines (joinLines ?nl (drop k (lines doc))) = drop k (lines doc)"
    by (rule splitLines_joinLines [OF d dn nl])
  finally show ?thesis by (simp add: applyEdit_def)
qed

text \<open>
  A position whose line is past the last line is moved to the end of the text. On a
  document that is one shebang line and nothing else, the position computed is line 1,
  which the document does not have, and the header lands at the end of the shebang's own
  line.
\<close>

lemma lone_shebang_position_clamped:
  "lines loneShebangDoc = [''#!/bin/sh''] \<and>
   insertionPosition loneShebangDoc = \<lparr>line = 1, character = 0\<rparr> \<and>
   lineCount loneShebangDoc = 1 \<and>
   ensureHeader (activeHost loneShebangDoc) loneShebangDoc
     = Inr (Some (Insert \<lparr>line = 1, character = 0\<rparr> (''# Path: run.sh'' @ [LF]))) \<and>
   lines (applyEdit loneShebangDoc (Insert \<lparr>line = 1, character = 0\<rparr> (''# Path: run.sh'' @ [LF])))
     = [''#!/bin/sh# Path: run.sh'', []]"
  by code_simp

section \<open>Running twice\<close>

text \<open>
  C1. The claim: a second run with the same path registers no edit and adds no second
  header, also for a document that starts with a shebang. On the two-line script below
  the first run inserts the header at line 1, after the shebang; the second run reads the
  text from its first character, finds \<open>#!\<close> where the header would start, reports no
  match and inserts the same header at line 1 again.
\<close>

theorem shebang_header_duplicated:
  "lines shebangDoc = [''#!/bin/sh'', ''echo hi''] \<and>
   ensureHeader (activeHost shebangDoc) shebangDoc
     = Inr (Some (Insert \<lparr>line = 1, character = 0\<rparr> (''# Path: run.sh'' @ [LF]))) \<and>
   lines (applyEdit shebangDoc (Insert \<lparr>line = 1, character = 0\<rparr> (''# Path: run.sh'' @ [LF])))
     = [''#!/bin/sh'', ''# Path: run.sh'', ''echo hi''] \<and>
   ensureHeader (activeHost shebangDoc)
      (applyEdit shebangDoc (Insert \<lparr>line = 1, character = 0\<rparr> (''# Path: run.sh'' @ [LF])))
     = Inr (Some (Insert \<lparr>line = 1, character = 0\<rparr> (''# Path: run.sh'' @ [LF]))) \<and>
   lines (applyEdit
            (applyEdit shebangDoc (Insert \<lparr>line = 1, character = 0\<rparr> (''# Path: run.sh'' @ [LF])))
            (Insert \<lparr>line = 1, character = 0\<rparr> (''# Path: run.sh'' @ [LF])))
     = [''#!/bin/sh'', ''# Path: run.sh'', ''# Path: run.sh'', ''echo hi'']"
  by code_simp

section \<open>The decision\<close>

text \<open>
  C2. With the document in the active editor and string tokens, the pattern always
  compiles, the text searched is that of the first min(10, lineCount) lines (the whole
  text when the document has at most ten lines, else the first ten lines each with its
  terminator), and both versions decide alike for their target path: no match, insert the
  rendered header at \<open>insertionPosition\<close>; a match whose trimmed capture is the target
  path, no edit; any other match, replace the range from position (0, 0), which is offset
  0, to the position of the end of the matched text, which is the offset of its length, by
  the rendered header.
\<close>

theorem ensureHeader_decision:
  assumes "activeTextEditor h = Some (docId doc)"
    and "getCommentTokens (languageId doc) = Inr tokens"
  shows "headerRegex tokens (configuredLabel h) = Inr (headerAst tokens (configuredLabel h)) \<and>
    headerRegex_2 tokens (configuredLabel h) = Inr (headerAst tokens (configuredLabel h)) \<and>
    firstChunk doc =
      (if 10 < lineCount doc
       then concat (map (\<lambda>l. l @ nlOf (eol doc)) (take 10 (lines doc)))
       else fullText doc) \<and>
    ensureHeader h doc = Inr (Some
      (case exec (headerAst tokens (configuredLabel h)) (firstChunk doc) of
         None \<Rightarrow> Insert (insertionPosition doc)
                  (headerText tokens (configuredLabel h) (asRelativePath doc) (eol doc))
       | Some m \<Rightarrow>
           if trim (group1 m) = asRelativePath doc then NoEdit
           else Replace \<lparr>rstart = \<lparr>line = 0, character = 0\<rparr>,
                          rend = positionAt doc (length (matched m))\<rparr>
                  (headerText tokens (configuredLabel h) (asRelativePath doc) (eol doc)))) \<and>
    ensureHeader_2 h doc = Inr (Some
      (case exec (headerAst tokens (configuredLabel h)) (firstChunk doc) of
         None \<Rightarrow> Insert (insertionPosition doc)
                  (headerText tokens (configuredLabel h) (getRelPathOrAbs h doc) (eol doc))
       | Some m \<Rightarrow>
           if trim (group1 m) = getRelPathOrAbs h doc then NoEdit
           else Replace \<lparr>rstart = \<lparr>line = 0, character = 0\<rparr>,
                          rend = positionAt doc (length (matched m))\<rparr>
                  (headerText tokens (configuredLabel h) (getRelPathOrAbs h doc) (eol doc)))) \<and>
    offsetAt doc \<lparr>line = 0, character = 0\<rparr> = 0 \<and>
    (\<forall>m. exec (headerAst tokens (configuredLabel h)) (firstChunk doc) = Some m \<longrightarrow>
       index m = 0 \<and> prefix (matched m) (fullText doc) \<and>
       offsetAt doc (positionAt doc (length (matched m))) = length (matched m))"
proof -
  have m: "index m = 0 \<and> prefix (matched m) (fullText doc) \<and>
           offsetAt doc (positionAt doc (length (matched m))) = length (matched m)"
    if "exec (headerAst tokens (configuredLabel h)) (firstChunk doc) = Some m" for m
  proof -
    from exec_header_sound [OF that] have "index m = 0" by blast
    moreover from match_end_position [OF that]
    have "offsetAt doc (positionAt doc (length (matched m))) = length (matched m)"
      and "prefix (matched m) (fullText doc)"
      by (auto simp: prefix_def)
    ultimately show ?thesis by blast
  qed
  have d1: "ensureHeader h doc
      = Inr (Some (decide tokens (configuredLabel h) (asRelativePath doc) doc))"
    by (rule ensureHeader_decide [OF assms])
  have d2: "ensureHeader_2 h doc
      = Inr (Some (decide tokens (configuredLabel h) (getRelPathOrAbs h doc) doc))"
    by (rule ensureHeader_2_decide [OF assms])
  show ?thesis
    unfolding d1 d2 decide_def
    by (intro conjI allI impI headerRegex_ast headerRegex_2_ast firstChunk_lines refl
          offsetAt_origin)
       (simp_all add: m)
qed

theorem ensureHeader_decision_witness:
  "activeTextEditor (activeHost htmlDoc) = Some (docId htmlDoc) \<and>
   getCommentTokens (languageId htmlDoc) = Inr (Block ''<!-- '' '' -->'') \<and>
   exec (headerAst (Block ''<!-- '' '' -->'') (configuredLabel (activeHost htmlDoc)))
        (firstChunk htmlDoc)
     = Some \<lparr>index = 0, matched = ''<!-- Path: old/loc.html -->'' @ [CR, LF],
             groups = [(1, ''old/loc.html'')]\<rparr> \<and>
   offsetAt htmlDoc (positionAt htmlDoc (length (''<!-- Path: old/loc.html -->'' @ [CR, LF])))
     = length (''<!-- Path: old/loc.html -->'' @ [CR, LF]) \<and>
   ensureHeader (activeHost htmlDoc) htmlDoc
     = Inr (Some (Replace \<lparr>rstart = \<lparr>line = 0, character = 0\<rparr>,
                           rend = \<lparr>line = 1, character = 0\<rparr>\<rparr>
                          (''<!-- Path: new/loc.html -->'' @ [CR, LF])))"
proof -
  have a: "activeTextEditor (activeHost htmlDoc) = Some (docId htmlDoc)"
    by (simp add: activeHost_def)
  have t: "getCommentTokens (languageId htmlDoc) = Inr (Block ''<!-- '' '' -->'')"
    by code_simp
  have e: "exec (headerAst (Block ''<!-- '' '' -->'') (configuredLabel (activeHost htmlDoc)))
        (firstChunk htmlDoc)
     = Some \<lparr>index = 0, matched = ''<!-- Path: old/loc.html -->'' @ [CR, LF],
             groups = [(1, ''old/loc.html'')]\<rparr>"
    by code_simp
  have r: "ensureHeader (activeHost htmlDoc) htmlDoc
     = Inr (Some (Replace \<lparr>rstart = \<lparr>line = 0, character = 0\<rparr>,
                           rend = \<lparr>line = 1, character = 0\<rparr>\<rparr>
                          (''<!-- Path: new/loc.html -->'' @ [CR, LF])))"
    by code_simp
  from ensureHeader_decision [OF a t] e
  have "offsetAt htmlDoc (positionAt htmlDoc
            (length (matched \<lparr>index = 0, matched = ''<!-- Path: old/loc.html -->'' @ [CR, LF],
                               groups = [(1, ''old/loc.html'')]\<rparr>)))
        = length (matched \<lparr>index = 0, matched = ''<!-- Path: old/loc.html -->'' @ [CR, LF],
                            groups = [(1, ''old/loc.html'')]\<rparr>)"
    by blast
  then have o: "offsetAt htmlDoc (positionAt htmlDoc (length (''<!-- Path: old/loc.html -->'' @ [CR, LF])))
     = length (''<!-- Path: old/loc.html -->'' @ [CR, LF])"
    by simp
  from a t e o r show ?thesis by (intro conjI)
qed

section \<open>What a replacement changes\<close>

text \<open>
  C3. The claim: a replacement touches the matched header line alone, and no other line is
  changed or deleted. The range replaced starts at position (0, 0), and the match takes in
  the whitespace before the header, so blank lines above the header go with it: in the
  document below the blank first line is deleted.
\<close>

theorem blank_lines_deleted:
  "lines staleAfterBlankDoc = [[], ''// Path: old.ts'', ''let x = 1''] \<and>
   ensureHeader (activeHost staleAfterBlankDoc) staleAfterBlankDoc
     = Inr (Some (Replace \<lparr>rstart = \<lparr>line = 0, character = 0\<rparr>,
                           rend = \<lparr>line = 2, character = 0\<rparr>\<rparr>
                          (''// Path: new.ts'' @ [LF]))) \<and>
   lines (applyEdit staleAfterBlankDoc
            (Replace \<lparr>rstart = \<lparr>line = 0, character = 0\<rparr>,
                      rend = \<lparr>line = 2, character = 0\<rparr>\<rparr>
                     (''// Path: new.ts'' @ [LF])))
     = [''// Path: new.ts'', ''let x = 1'']"
  by code_simp

text \<open>
  C3, amended. When either version replaces, the text of the document is the matched span
  followed by a rest; the matched span is whitespace (blank lines included), the start
  delimiter, the label, a colon, whitespace, a path that differs from the target once
  trimmed, the end delimiter and at most one line terminator; and the edited text is the
  rendered header followed by that same rest, character for character.
\<close>

theorem replace_keeps_rest:
  assumes "ensureHeader h doc = Inr (Some (Replace r txt)) \<or>
           ensureHeader_2 h doc = Inr (Some (Replace r txt))"
  shows "\<exists>tokens rel ws1 ws2 path e rest.
           getCommentTokens (languageId doc) = Inr tokens \<and>
           (rel = asRelativePath doc \<or> rel = getRelPathOrAbs h doc) \<and>
           fullText doc
             = (ws1 @ startOf tokens @ configuredLabel h @ '':'' @ ws2 @ path
                @ endOf tokens @ e) @ rest \<and>
           (\<forall>c \<in> set ws1. is_space c) \<and> (\<forall>c \<in> set ws2. is_space c) \<and>
           path \<noteq> [] \<and> (\<forall>c \<in> set path. \<not> is_line_terminator c) \<and>
           e \<in> {[], [CR], [LF], [CR, LF]} \<and> trim path \<noteq> rel \<and>
           txt = headerText tokens (configuredLabel h) rel (eol doc) \<and>
           editedText doc (Replace r txt) = txt @ rest"
proof -
  from assms obtain tokens rel where
    t: "getCommentTokens (languageId doc) = Inr tokens"
    and rel: "rel = asRelativePath doc \<or> rel = getRelPathOrAbs h doc"
    and d: "decide tokens (configuredLabel h) rel doc = Replace r txt"
  proof
    assume e: "ensureHeader h doc = Inr (Some (Replace r txt))"
    from ensureHeader_edit_cases [OF e] obtain tokens where
      a: "activeTextEditor h = Some (docId doc)" "getCommentTokens (languageId doc) = Inr tokens"
      by blast
    from ensureHeader_decide [OF a] e
    have "decide tokens (configuredLabel h) (asRelativePath doc) doc = Replace r txt" by simp
    with a(2) that show ?thesis by blast
  next
    assume e: "ensureHeader_2 h doc = Inr (Some (Replace r txt))"
    from ensureHeader_2_edit_cases [OF e] obtain tokens where
      a: "activeTextEditor h = Some (docId doc)" "getCommentTokens (languageId doc) = Inr tokens"
      by blast
    from ensureHeader_2_decide [OF a] e
    have "decide tokens (configuredLabel h) (getRelPathOrAbs h doc) doc = Replace r txt" by simp
    with a(2) that show ?thesis by blast
  qed
  from decide_Replace [OF d] obtain ws1 ws2 path e rest where
    h: "fullText doc
          = (ws1 @ startOf tokens @ configuredLabel h @ '':'' @ ws2 @ path @ endOf tokens @ e) @ rest"
       "\<forall>c \<in> set ws1. is_space c" "\<forall>c \<in> set ws2. is_space c"
       "path \<noteq> []" "\<forall>c \<in> set path. \<not> is_line_terminator c"
       "e \<in> {[], [CR], [LF], [CR, LF]}" "trim path \<noteq> rel"
       "txt = headerText tokens (configuredLabel h) rel (eol doc)"
       "editedText doc (Replace r txt) = txt @ rest"
    by blast
  show ?thesis
    by (rule exI [of _ tokens], rule exI [of _ rel], rule exI [of _ ws1], rule exI [of _ ws2],
        rule exI [of _ path], rule exI [of _ e], rule exI [of _ rest])
       (intro conjI t rel h)
qed

theorem replace_keeps_rest_witness:
  "ensureHeader (activeHost staleAfterBlankDoc) staleAfterBlankDoc
     = Inr (Some (Replace \<lparr>rstart = \<lparr>line = 0, character = 0\<rparr>,
                           rend = \<lparr>line = 2, character = 0\<rparr>\<rparr>
                          (''// Path: new.ts'' @ [LF]))) \<and>
   fullText staleAfterBlankDoc = ([LF] @ ''// Path: old.ts'' @ [LF]) @ ''let x = 1'' \<and>
   (\<exists>rest. fullText staleAfterBlankDoc = ([LF] @ ''// Path: old.ts'' @ [LF]) @ rest \<and>
      editedText staleAfterBlankDoc
        (Replace \<lparr>rstart = \<lparr>line = 0, character = 0\<rparr>, rend = \<lparr>line = 2, character = 0\<rparr>\<rparr>
                 (''// Path: new.ts'' @ [LF]))
      = (''// Path: new.ts'' @ [LF]) @ rest)"
proof -
  let ?r = "\<lparr>rstart = \<lparr>line = 0, character = 0\<rparr>, rend = \<lparr>line = 2, character = 0\<rparr>\<rparr>"
  let ?txt = "''// Path: new.ts'' @ [LF]"
  have e: "ensureHeader (activeHost staleAfterBlankDoc) staleAfterBlankDoc
     = Inr (Some (Replace ?r ?txt))"
    by code_simp
  have f: "fullText staleAfterBlankDoc = ([LF] @ ''// Path: old.ts'' @ [LF]) @ ''let x = 1''"
    by code_simp
  from replace_keeps_rest [OF disjI1 [OF e]] obtain rest' m where
    m: "fullText staleAfterBlankDoc = m @ rest'"
    and ed: "editedText staleAfterBlankDoc (Replace ?r ?txt) = ?txt @ rest'"
    by blast
  have ed2: "editedText staleAfterBlankDoc (Replace ?r ?txt) = ?txt @ ''let x = 1''"
    by code_simp
  with ed have "rest' = ''let x = 1''" by simp
  with ed f have "fullText staleAfterBlankDoc = ([LF] @ ''// Path: old.ts'' @ [LF]) @ rest' \<and>
      editedText staleAfterBlankDoc (Replace ?r ?txt) = ?txt @ rest'"
    by simp
  then have "\<exists>rest. fullText staleAfterBlankDoc = ([LF] @ ''// Path: old.ts'' @ [LF]) @ rest \<and>
      editedText staleAfterBlankDoc (Replace ?r ?txt) = ?txt @ rest"
    by (rule exI)
  with e f show ?thesis by (intro conjI)
qed

section \<open>Where an insertion goes\<close>

text \<open>
  C4. The claim's rule is right, and so is its case of three leading blank lines; its case
  of a shebang says the header goes to line 1, and that fails when blank lines follow the
  shebang, which the loop skips as well: below, the header goes to line 2.
\<close>

theorem shebang_blank_inserts_at_2:
  "lines shebangBlankDoc = [''#!/bin/sh'', [], ''echo hi''] \<and>
   insertionPosition shebangBlankDoc = \<lparr>line = 2, character = 0\<rparr> \<and>
   ensureHeader (activeHost shebangBlankDoc) shebangBlankDoc
     = Inr (Some (Insert \<lparr>line = 2, character = 0\<rparr> (''# Path: run.sh'' @ [LF])))"
  by code_simp

text \<open>
  C4, amended. \<open>insertionPosition\<close> is column 0 of the line reached from line 0 by stepping
  to line 1 when line 0 begins with \<open>#!\<close> and then past every consecutive blank line
  (one whose trimmed text is empty). When the document has a line at that index, the line
  is not blank and an insertion there puts the text between the lines before it, each
  with its terminator, and that line: a header without line terminators, followed by the
  document's line ending, becomes the line of that index, and the lines from there on move
  down by one. So, with a shebang on line 0 and a line 1 that is not blank, the header goes
  to line 1, right after the shebang line; when blank lines follow the shebang and the
  document has a line after them, it goes after those blank lines, at an index of at
  least 1; with exactly three leading blank lines and a line after them that is not blank,
  it goes to line 3, right after them; and when the search finds no header, that position
  is where the header is inserted.
\<close>

theorem insertionPosition_rule:
  "insertionPosition doc =
     \<lparr>line = (let s = (if lines doc \<noteq> [] \<and> prefix ''#!'' (hd (lines doc)) then 1 else 0)
              in s + length (takeWhile isBlank (drop s (lines doc)))),
      character = 0\<rparr> \<and>
   (line (insertionPosition doc) < lineCount doc \<longrightarrow>
      \<not> isBlank (lines doc ! line (insertionPosition doc)) \<and>
      (\<forall>txt. editedText doc (Insert (insertionPosition doc) txt)
         = concat (map (\<lambda>l. l @ nlOf (eol doc)) (take (line (insertionPosition doc)) (lines doc)))
           @ txt @ joinLines (nlOf (eol doc)) (drop (line (insertionPosition doc)) (lines doc))) \<and>
      (\<forall>hl. list_all noTerminator (lines doc) \<and> noTerminator hl \<longrightarrow>
         lines (applyEdit doc (Insert (insertionPosition doc) (hl @ nlOf (eol doc))))
           = take (line (insertionPosition doc)) (lines doc)
             @ hl # drop (line (insertionPosition doc)) (lines doc))) \<and>
   (\<forall>l0 l1 rest. lines doc = l0 # l1 # rest \<and> prefix ''#!'' l0 \<and> \<not> isBlank l1 \<longrightarrow>
      insertionPosition doc = \<lparr>line = 1, character = 0\<rparr> \<and>
      (\<forall>txt. editedText doc (Insert (insertionPosition doc) txt)
         = l0 @ nlOf (eol doc) @ txt @ joinLines (nlOf (eol doc)) (l1 # rest))) \<and>
   (\<forall>l0 rest. lines doc = l0 # rest \<and> prefix ''#!'' l0 \<and>
      line (insertionPosition doc) < lineCount doc \<longrightarrow>
      1 \<le> line (insertionPosition doc) \<and>
      list_all isBlank (take (line (insertionPosition doc) - 1) rest)) \<and>
   (\<forall>b1 b2 b3 l rest.
      lines doc = b1 # b2 # b3 # l # rest \<and> isBlank b1 \<and> isBlank b2 \<and> isBlank b3 \<and>
      \<not> isBlank l \<longrightarrow>
      insertionPosition doc = \<lparr>line = 3, character = 0\<rparr> \<and>
      (\<forall>txt. editedText doc (Insert (insertionPosition doc) txt)
         = b1 @ nlOf (eol doc) @ b2 @ nlOf (eol doc) @ b3 @ nlOf (eol doc) @ txt
           @ joinLines (nlOf (eol doc)) (l # rest))) \<and>
   (\<forall>h tokens.
      activeTextEditor h = Some (docId doc) \<and>
      getCommentTokens (languageId doc) = Inr tokens \<and>
      exec (headerAst tokens (configuredLabel h)) (firstChunk doc) = None \<longrightarrow>
      ensureHeader h doc = Inr (Some (Insert (insertionPosition doc)
        (headerText tokens (configuredLabel h) (asRelativePath doc) (eol doc)))) \<and>
      ensureHeader_2 h doc = Inr (Some (Insert (insertionPosition doc)
        (headerText tokens (configuredLabel h) (getRelPathOrAbs h doc) (eol doc)))))"
proof -
  let ?k = "line (insertionPosition doc)"
  let ?nl = "nlOf (eol doc)"
  have pos: "insertionPosition doc = \<lparr>line = ?k, character = 0\<rparr>"
    by (simp add: insertionPosition_eq)
  have c1: "insertionPosition doc =
     \<lparr>line = (let s = (if lines doc \<noteq> [] \<and> prefix ''#!'' (hd (lines doc)) then 1 else 0)
              in s + length (takeWhile isBlank (drop s (lines doc)))),
      character = 0\<rparr>"
    by (rule insertionPosition_eq)
  have eff: "editedText doc (Insert (insertionPosition doc) tx)
         = concat (map (\<lambda>l. l @ ?nl) (take ?k (lines doc))) @ tx @ joinLines ?nl (drop ?k (lines doc))"
    if "?k < lineCount doc" for tx
    by (subst pos) (rule insert_at_line_start [OF that])
  have nb: "\<not> isBlank (lines doc ! ?k)" if r: "?k < lineCount doc"
  proof -
    define s :: nat where "s = (if lines doc \<noteq> [] \<and> prefix ''#!'' (hd (lines doc)) then 1 else 0)"
    have k: "?k = s + length (takeWhile isBlank (drop s (lines doc)))"
      by (simp add: insertionPosition_eq s_def Let_def)
    with r have lt: "length (takeWhile isBlank (drop s (lines doc))) < length (drop s (lines doc))"
      by (simp add: lineCount_def)
    then have "\<not> isBlank (drop s (lines doc) ! length (takeWhile isBlank (drop s (lines doc))))"
      by (rule nth_length_takeWhile)
    moreover from r k have "drop s (lines doc) ! length (takeWhile isBlank (drop s (lines doc)))
        = lines doc ! ?k"
      by (simp add: lineCount_def)
    ultimately show ?thesis by simp
  qed
  have ln: "lines (applyEdit doc (Insert (insertionPosition doc) (hl @ ?nl)))
           = take ?k (lines doc) @ hl # drop ?k (lines doc)"
    if "?k < lineCount doc" and "list_all noTerminator (lines doc) \<and> noTerminator hl" for hl
    using that by (subst pos) (simp add: insert_line)
  have c2: "?k < lineCount doc \<longrightarrow>
      \<not> isBlank (lines doc ! ?k) \<and>
      (\<forall>txt. editedText doc (Insert (insertionPosition doc) txt)
         = concat (map (\<lambda>l. l @ ?nl) (take ?k (lines doc))) @ txt @ joinLines ?nl (drop ?k (lines doc))) \<and>
      (\<forall>hl. list_all noTerminator (lines doc) \<and> noTerminator hl \<longrightarrow>
         lines (applyEdit doc (Insert (insertionPosition doc) (hl @ ?nl)))
           = take ?k (lines doc) @ hl # drop ?k (lines doc))"
    using eff nb ln by blast
  have c3: "insertionPosition doc = \<lparr>line = 1, character = 0\<rparr> \<and>
      (\<forall>txt. editedText doc (Insert (insertionPosition doc) txt)
         = l0 @ ?nl @ txt @ joinLines ?nl (l1 # rest))"
    if a: "lines doc = l0 # l1 # rest \<and> prefix ''#!'' l0 \<and> \<not> isBlank l1" for l0 l1 rest
  proof -
    from a have p: "insertionPosition doc = \<lparr>line = 1, character = 0\<rparr>"
      by (simp add: insertionPosition_eq)
    with a have "?k < lineCount doc" by (simp add: lineCount_def)
    from eff [OF this] p a show ?thesis by simp
  qed
  have c4: "1 \<le> ?k \<and> list_all isBlank (take (?k - 1) rest)"
    if a: "lines doc = l0 # rest \<and> prefix ''#!'' l0 \<and> ?k < lineCount doc" for l0 rest
  proof -
    from a have k: "?k = 1 + length (takeWhile isBlank rest)"
      by (simp add: insertionPosition_eq)
    have "take (length (takeWhile isBlank rest)) rest = takeWhile isBlank rest"
      by (rule takeWhile_eq_take [symmetric])
    moreover have "list_all isBlank (takeWhile isBlank rest)"
      by (auto simp: list_all_iff dest: set_takeWhileD)
    ultimately show ?thesis using k by simp
  qed
  have c5: "insertionPosition doc = \<lparr>line = 3, character = 0\<rparr> \<and>
      (\<forall>txt. editedText doc (Insert (insertionPosition doc) txt)
         = b1 @ ?nl @ b2 @ ?nl @ b3 @ ?nl @ txt @ joinLines ?nl (l # rest))"
    if a: "lines doc = b1 # b2 # b3 # l # rest \<and> isBlank b1 \<and> isBlank b2 \<and> isBlank b3 \<and>
      \<not> isBlank l" for b1 b2 b3 l rest
  proof -
    from a have "\<not> prefix ''#!'' b1" by (simp add: isBlank_no_shebang)
    with a have p: "insertionPosition doc = \<lparr>line = 3, character = 0\<rparr>"
      by (simp add: insertionPosition_eq)
    with a have "?k < lineCount doc" by (simp add: lineCount_def)
    from eff [OF this] p a show ?thesis by (simp add: numeral_3_eq_3)
  qed
  have c6: "ensureHeader h doc = Inr (Some (Insert (insertionPosition doc)
        (headerText tokens (configuredLabel h) (asRelativePath doc) (eol doc)))) \<and>
      ensureHeader_2 h doc = Inr (Some (Insert (insertionPosition doc)
        (headerText tokens (configuredLabel h) (getRelPathOrAbs h doc) (eol doc))))"
    if "activeTextEditor h = Some (docId doc) \<and>
      getCommentTokens (languageId doc) = Inr tokens \<and>
      exec (headerAst tokens (configuredLabel h)) (firstChunk doc) = None" for h tokens
    using that by (simp add: ensureHeader_decide ensureHeader_2_decide decide_def)
  from c1 c2 c3 c4 c5 c6 show ?thesis by blast
qed

theorem insertionPosition_rule_witness:
  "lines shebangDoc = ''#!/bin/sh'' # ''echo hi'' # [] \<and> prefix ''#!'' ''#!/bin/sh'' \<and>
   \<not> isBlank ''echo hi'' \<and>
   line (insertionPosition shebangDoc) < lineCount shebangDoc \<and>
   list_all noTerminator (lines shebangDoc) \<and> noTerminator ''# Path: run.sh'' \<and>
   insertionPosition shebangDoc = \<lparr>line = 1, character = 0\<rparr> \<and>
   editedText shebangDoc (Insert (insertionPosition shebangDoc) (''# Path: run.sh'' @ [LF]))
     = ''#!/bin/sh'' @ [LF] @ ''# Path: run.sh'' @ [LF] @ ''echo hi'' \<and>
   lines (applyEdit shebangDoc (Insert (insertionPosition shebangDoc) (''# Path: run.sh'' @ [LF])))
     = [''#!/bin/sh'', ''# Path: run.sh'', ''echo hi''] \<and>
   lines shebangBlankDoc = ''#!/bin/sh'' # [[], ''echo hi''] \<and>
   line (insertionPosition shebangBlankDoc) < lineCount shebangBlankDoc \<and>
   1 \<le> line (insertionPosition shebangBlankDoc) \<and>
   lines blankLinesDoc = [] # [] # [] # ''import os'' # [] \<and> isBlank [] \<and>
   \<not> isBlank ''import os'' \<and>
   insertionPosition blankLinesDoc = \<lparr>line = 3, character = 0\<rparr> \<and>
   activeTextEditor (activeHost blankLinesDoc) = Some (docId blankLinesDoc) \<and>
   getCommentTokens (languageId blankLinesDoc) = Inr (Line ''# '') \<and>
   exec (headerAst (Line ''# '') (configuredLabel (activeHost blankLinesDoc)))
        (firstChunk blankLinesDoc) = None \<and>
   ensureHeader (activeHost blankLinesDoc) blankLinesDoc
     = Inr (Some (Insert \<lparr>line = 3, character = 0\<rparr> (''# Path: src/app.py'' @ [LF])))"
proof -
  note t = insertionPosition_rule [of shebangDoc]
  note u = insertionPosition_rule [of blankLinesDoc]
  note v = insertionPosition_rule [of shebangBlankDoc]
  note t2 = t [THEN conjunct2, THEN conjunct1, rule_format]
  note t3 = t [THEN conjunct2, THEN conjunct2, THEN conjunct1, rule_format]
  note v4 = v [THEN conjunct2, THEN conjunct2, THEN conjunct2, THEN conjunct1, rule_format]
  note u5 = u [THEN conjunct2, THEN conjunct2, THEN conjunct2, THEN conjunct2, THEN conjunct1,
               rule_format]
  note u6 = u [THEN conjunct2, THEN conjunct2, THEN conjunct2, THEN conjunct2, THEN conjunct2,
               rule_format]
  have s: "lines shebangDoc = ''#!/bin/sh'' # ''echo hi'' # []" by (simp add: shebangDoc_def)
  have p: "prefix ''#!'' ''#!/bin/sh''" by simp
  have n1: "\<not> isBlank ''echo hi''" by code_simp
  have r: "line (insertionPosition shebangDoc) < lineCount shebangDoc" by code_simp
  have cl: "list_all noTerminator (lines shebangDoc)" by code_simp
  have ch: "noTerminator ''# Path: run.sh''" by code_simp
  have nl: "nlOf (eol shebangDoc) = [LF]" by (simp add: nlOf_def shebangDoc_def)
  have h3: "lines shebangDoc = ''#!/bin/sh'' # ''echo hi'' # [] \<and> prefix ''#!'' ''#!/bin/sh'' \<and>
      \<not> isBlank ''echo hi''"
    using s p n1 by (intro conjI)
  have i1: "insertionPosition shebangDoc = \<lparr>line = 1, character = 0\<rparr>"
    by (rule t3 [OF h3, THEN conjunct1])
  have "editedText shebangDoc (Insert (insertionPosition shebangDoc) (''# Path: run.sh'' @ [LF]))
     = ''#!/bin/sh'' @ nlOf (eol shebangDoc) @ (''# Path: run.sh'' @ [LF])
       @ joinLines (nlOf (eol shebangDoc)) (''echo hi'' # [])"
    by (rule t3 [OF h3, THEN conjunct2, THEN spec])
  then have e1: "editedText shebangDoc (Insert (insertionPosition shebangDoc) (''# Path: run.sh'' @ [LF]))
     = ''#!/bin/sh'' @ [LF] @ ''# Path: run.sh'' @ [LF] @ ''echo hi''"
    by (simp add: nl)
  have "lines (applyEdit shebangDoc
          (Insert (insertionPosition shebangDoc) (''# Path: run.sh'' @ nlOf (eol shebangDoc))))
     = take (line (insertionPosition shebangDoc)) (lines shebangDoc) @ ''# Path: run.sh''
       # drop (line (insertionPosition shebangDoc)) (lines shebangDoc)"
    by (rule t2 [OF r, THEN conjunct2, THEN conjunct2, THEN spec, THEN mp, OF conjI [OF cl ch]])
  then have l1: "lines (applyEdit shebangDoc
          (Insert (insertionPosition shebangDoc) (''# Path: run.sh'' @ [LF])))
     = [''#!/bin/sh'', ''# Path: run.sh'', ''echo hi'']"
    by (simp add: nl i1 s)
  have sb: "lines shebangBlankDoc = ''#!/bin/sh'' # [[], ''echo hi'']"
    by (simp add: shebangBlankDoc_def)
  have rb: "line (insertionPosition shebangBlankDoc) < lineCount shebangBlankDoc" by code_simp
  have gb: "1 \<le> line (insertionPosition shebangBlankDoc)"
    by (rule v4 [OF conjI [OF sb conjI [OF p rb]], THEN conjunct1])
  have b: "lines blankLinesDoc = [] # [] # [] # ''import os'' # []" by (simp add: blankLinesDoc_def)
  have e: "isBlank []" by code_simp
  have n2: "\<not> isBlank ''import os''" by code_simp
  have i3: "insertionPosition blankLinesDoc = \<lparr>line = 3, character = 0\<rparr>"
    by (rule u5 [OF conjI [OF b conjI [OF e conjI [OF e conjI [OF e n2]]]], THEN conjunct1])
  have a: "activeTextEditor (activeHost blankLinesDoc) = Some (docId blankLinesDoc)"
    by (simp add: activeHost_def)
  have g: "getCommentTokens (languageId blankLinesDoc) = Inr (Line ''# '')" by code_simp
  have x: "exec (headerAst (Line ''# '') (configuredLabel (activeHost blankLinesDoc)))
        (firstChunk blankLinesDoc) = None"
    by code_simp
  have h: "headerText (Line ''# '') (configuredLabel (activeHost blankLinesDoc))
        (asRelativePath blankLinesDoc) (eol blankLinesDoc) = ''# Path: src/app.py'' @ [LF]"
    by code_simp
  have "ensureHeader (activeHost blankLinesDoc) blankLinesDoc
     = Inr (Some (Insert (insertionPosition blankLinesDoc)
        (headerText (Line ''# '') (configuredLabel (activeHost blankLinesDoc))
           (asRelativePath blankLinesDoc) (eol blankLinesDoc))))"
    by (rule u6 [OF conjI [OF a conjI [OF g x]], THEN conjunct1])
  then have f: "ensureHeader (activeHost blankLinesDoc) blankLinesDoc
     = Inr (Some (Insert \<lparr>line = 3, character = 0\<rparr> (''# Path: src/app.py'' @ [LF])))"
    by (simp only: i3 h)
  from s p n1 r cl ch i1 e1 l1 sb rb gb b e n2 i3 a g x f show ?thesis by (intro conjI)
qed

section \<open>Where a header can be found\<close>

text \<open>
  C5. Whichever version built the pattern, a match starts at offset 0 of the text searched
  and is a prefix of it; it is whitespace, then the start delimiter, the label and a
  colon. So the whitespace (blank lines included) before a header found is part of the
  matched span, and once the text has a character that is not whitespace, nothing after
  that character is where the header found begins: a header line below a shebang or a
  line of code is never the one detected.
\<close>

theorem header_only_at_start:
  assumes "headerRegex tokens label = Inr re \<or> headerRegex_2 tokens label = Inr re"
    and "exec re s = Some m"
  shows "index m = 0 \<and> prefix (matched m) s \<and>
    (\<exists>ws rest. matched m = ws @ startOf tokens @ label @ '':'' @ rest \<and>
       (\<forall>c \<in> set ws. is_space c) \<and>
       (\<forall>a b. s = a @ b \<and> (\<exists>c \<in> set a. \<not> is_space c) \<longrightarrow> length ws < length a))"
proof -
  from assms(1) have "re = headerAst tokens label"
    by (auto simp: headerRegex_ast headerRegex_2_ast)
  with assms(2) have e: "exec (headerAst tokens label) s = Some m" by simp
  from exec_header_sound [OF e] obtain ws1 ws2 path e' rest where
    i: "index m = 0"
    and h: "matched m = ws1 @ startOf tokens @ label @ '':'' @ ws2 @ path @ endOf tokens @ e'"
    and s: "s = matched m @ rest"
    and w: "\<forall>c \<in> set ws1. is_space c"
    by blast
  from s have p: "prefix (matched m) s" by (simp add: prefix_def)
  have far: "length ws1 < length a" if "s = a @ b" and "\<exists>c \<in> set a. \<not> is_space c" for a b
  proof (rule ccontr)
    assume "\<not> length ws1 < length a"
    then have le: "length a \<le> length ws1" by simp
    from that(1) s h have "a @ b = ws1 @ (startOf tokens @ label @ '':'' @ ws2 @ path
        @ endOf tokens @ e' @ rest)"
      by simp
    with le have "a = take (length a) ws1"
      by (metis append_eq_append_conv_if)
    then have "set a \<subseteq> set ws1" by (metis set_take_subset)
    with w that(2) show False by blast
  qed
  have "matched m = ws1 @ startOf tokens @ label @ '':'' @ (ws2 @ path @ endOf tokens @ e') \<and>
       (\<forall>c \<in> set ws1. is_space c) \<and>
       (\<forall>a b. s = a @ b \<and> (\<exists>c \<in> set a. \<not> is_space c) \<longrightarrow> length ws1 < length a)"
    using h w far by auto
  then have "\<exists>ws rest. matched m = ws @ startOf tokens @ label @ '':'' @ rest \<and>
       (\<forall>c \<in> set ws. is_space c) \<and>
       (\<forall>a b. s = a @ b \<and> (\<exists>c \<in> set a. \<not> is_space c) \<longrightarrow> length ws < length a)"
    by (intro exI)
  with i p show ?thesis by (intro conjI)
qed

theorem header_only_at_start_witness:
  "headerRegex (Line ''# '') ''Path'' = Inr (headerAst (Line ''# '') ''Path'') \<and>
   exec (headerAst (Line ''# '') ''Path'') ([LF, LF] @ ''# Path: a.sh'' @ [LF] @ ''echo'')
     = Some \<lparr>index = 0, matched = [LF, LF] @ ''# Path: a.sh'' @ [LF],
             groups = [(1, ''a.sh'')]\<rparr> \<and>
   prefix ([LF, LF] @ ''# Path: a.sh'' @ [LF]) ([LF, LF] @ ''# Path: a.sh'' @ [LF] @ ''echo'') \<and>
   exec (headerAst (Line ''# '') ''Path'') (''#!/bin/sh'' @ [LF] @ ''# Path: a.sh'' @ [LF] @ ''echo'')
     = None"
proof -
  let ?m = "\<lparr>index = 0, matched = [LF, LF] @ ''# Path: a.sh'' @ [LF], groups = [(1, ''a.sh'')]\<rparr>"
  have r: "headerRegex (Line ''# '') ''Path'' = Inr (headerAst (Line ''# '') ''Path'')"
    by (rule headerRegex_ast)
  have e: "exec (headerAst (Line ''# '') ''Path'') ([LF, LF] @ ''# Path: a.sh'' @ [LF] @ ''echo'')
     = Some ?m"
    by code_simp
  from header_only_at_start [OF disjI1 [OF r] e]
  have "prefix (matched ?m) ([LF, LF] @ ''# Path: a.sh'' @ [LF] @ ''echo'')" by blast
  then have p: "prefix ([LF, LF] @ ''# Path: a.sh'' @ [LF]) ([LF, LF] @ ''# Path: a.sh'' @ [LF] @ ''echo'')"
    by simp
  have n: "exec (headerAst (Line ''# '') ''Path'')
             (''#!/bin/sh'' @ [LF] @ ''# Path: a.sh'' @ [LF] @ ''echo'') = None"
    by code_simp
  from r e p n show ?thesis by (intro conjI)
qed

section \<open>The comment-style table\<close>

lemma getCommentTokens_lookup:
  assumes "lid \<notin> set objectPrototypeKeys"
  shows "getCommentTokens lid =
     (case map_of lineMap lid of
        Some l \<Rightarrow> Inr (Line l)
      | None \<Rightarrow> (case map_of blockMap lid of
                   Some (s, e) \<Rightarrow> Inr (Block s e)
                 | None \<Rightarrow> Inr (Line ''// '')))"
proof -
  have ne: "v \<noteq> []" if "map_of lineMap lid = Some v" for v
  proof -
    from that have "(lid, v) \<in> set lineMap" by (rule map_of_SomeD)
    then show "v \<noteq> []" unfolding lineMap_def by auto
  qed
  show ?thesis
    using assms ne by (auto simp: getCommentTokens_def js_get_def split: option.splits)
qed

text \<open>
  C6. The claim: the resolver is total and pure, and answers with the line style of the
  line table, else the block style of the block table, else the default line style
  \<open>// \<close>. The code reads the tables with a property read, so for the identifier
  \<open>constructor\<close>, which is in neither table, it finds the member inherited from
  \<open>Object.prototype\<close> and returns it as \<open>start\<close>: not the default, and not a string, so
  that \<open>ensureHeader\<close> throws a TypeError on such a document. \<open>unknown-lang-xyz\<close> does
  resolve to the default.
\<close>

theorem getCommentTokens_prototype_leak:
  "map_of lineMap ''constructor'' = None \<and> map_of blockMap ''constructor'' = None \<and>
   getCommentTokens ''constructor'' = Inl ''constructor'' \<and>
   getCommentTokens ''unknown-lang-xyz'' = Inr (Line ''// '') \<and>
   ensureHeader (activeHost protoDoc) protoDoc = Inl TypeError \<and>
   ensureHeader_2 (activeHost protoDoc) protoDoc = Inl TypeError"
  by code_simp

section \<open>Literals in the pattern\<close>

text \<open>
  C7. The claim: the pattern accepts a line exactly when the line consists of whitespace,
  the start delimiter, the label, a colon, whitespace, a non-empty path, the end delimiter
  of a block style and an optional line terminator. The literals are indeed escaped, but
  the pattern has no anchor at its end and its whitespace is \<open>\s\<close>, which takes line
  terminators: a line with more text after the end delimiter is accepted, the match ending
  at the delimiter; and a line that ends at the colon is accepted when text follows on the
  next line, which is then the path.
\<close>

theorem junk_after_suffix_accepted:
  "headerRegex (Block ''<!-- '' '' -->'') ''Path''
     = Inr (headerAst (Block ''<!-- '' '' -->'') ''Path'') \<and>
   exec (headerAst (Block ''<!-- '' '' -->'') ''Path'') ''<!-- Path: a --> junk after the suffix''
     = Some \<lparr>index = 0, matched = ''<!-- Path: a -->'', groups = [(1, ''a'')]\<rparr> \<and>
   \<not> suffix '' -->'' ''<!-- Path: a --> junk after the suffix'' \<and>
   headerRegex (Line ''// '') ''Path'' = Inr (headerAst (Line ''// '') ''Path'') \<and>
   exec (headerAst (Line ''// '') ''Path'') (''// Path:'' @ [LF] @ ''let x = 1'')
     = Some \<lparr>index = 0, matched = ''// Path:'' @ [LF] @ ''let x = 1'',
             groups = [(1, ''let x = 1'')]\<rparr>"
  by code_simp

text \<open>
  C7, amended. For every start delimiter, end delimiter and label, both versions build a
  pattern that compiles, to the term in which each character of the three literals stands
  for itself. Run on a text, the pattern reports a match exactly when the text begins
  with: whitespace (line terminators included), the start delimiter, the label, a colon,
  whitespace (line terminators included), a non-empty path of characters other than line
  terminators, the end delimiter (empty for a line style) and at most one line terminator
  (CR, LF or CR LF); the match is such a beginning of the text, whatever follows it, and
  group 1 is its path.
\<close>

theorem header_pattern_literal:
  "headerRegex tokens label = Inr (headerAst tokens label) \<and>
   headerRegex_2 tokens label = Inr (headerAst tokens label) \<and>
   (\<forall>s m. exec (headerAst tokens label) s = Some m \<longrightarrow>
      (\<exists>ws1 ws2 path e rest.
         matched m = ws1 @ startOf tokens @ label @ '':'' @ ws2 @ path @ endOf tokens @ e \<and>
         s = matched m @ rest \<and>
         (\<forall>c \<in> set ws1. is_space c) \<and> (\<forall>c \<in> set ws2. is_space c) \<and>
         path \<noteq> [] \<and> (\<forall>c \<in> set path. \<not> is_line_terminator c) \<and>
         e \<in> {[], [CR], [LF], [CR, LF]} \<and> group1 m = path)) \<and>
   (\<forall>ws1 ws2 path e rest.
      (\<forall>c \<in> set ws1. is_space c) \<and> (\<forall>c \<in> set ws2. is_space c) \<and>
      path \<noteq> [] \<and> (\<forall>c \<in> set path. \<not> is_line_terminator c) \<and>
      e \<in> {[], [CR], [LF], [CR, LF]} \<longrightarrow>
      exec (headerAst tokens label)
        (ws1 @ startOf tokens @ label @ '':'' @ ws2 @ path @ endOf tokens @ e @ rest) \<noteq> None)"
proof (intro conjI allI impI)
  show "headerRegex tokens label = Inr (headerAst tokens label)"
    by (rule headerRegex_ast)
  show "headerRegex_2 tokens label = Inr (headerAst tokens label)"
    by (rule headerRegex_2_ast)
next
  fix s m
  assume "exec (headerAst tokens label) s = Some m"
  from exec_header_sound [OF this]
  show "\<exists>ws1 ws2 path e rest.
         matched m = ws1 @ startOf tokens @ label @ '':'' @ ws2 @ path @ endOf tokens @ e \<and>
         s = matched m @ rest \<and>
         (\<forall>c \<in> set ws1. is_space c) \<and> (\<forall>c \<in> set ws2. is_space c) \<and>
         path \<noteq> [] \<and> (\<forall>c \<in> set path. \<not> is_line_terminator c) \<and>
         e \<in> {[], [CR], [LF], [CR, LF]} \<and> group1 m = path"
    by (rule conjunct2)
next
  fix ws1 ws2 path e rest
  assume a: "(\<forall>c \<in> set ws1. is_space c) \<and> (\<forall>c \<in> set ws2. is_space c) \<and>
      path \<noteq> [] \<and> (\<forall>c \<in> set path. \<not> is_line_terminator c) \<and>
      e \<in> {[], [CR], [LF], [CR, LF]}"
  have 1: "\<forall>c \<in> set ws1. is_space c" using a by (rule conjunct1)
  have 2: "\<forall>c \<in> set ws2. is_space c" using a by (rule conjunct1 [OF conjunct2])
  have 3: "path \<noteq> []" using a by (rule conjunct1 [OF conjunct2 [OF conjunct2]])
  have 4: "\<forall>c \<in> set path. \<not> is_line_terminator c"
    using a by (rule conjunct1 [OF conjunct2 [OF conjunct2 [OF conjunct2]]])
  have 5: "e \<in> {[], [CR], [LF], [CR, LF]}"
    using a by (rule conjunct2 [OF conjunct2 [OF conjunct2 [OF conjunct2]]])
  show "exec (headerAst tokens label)
        (ws1 @ startOf tokens @ label @ '':'' @ ws2 @ path @ endOf tokens @ e @ rest) \<noteq> None"
    by (rule exec_header_complete [OF 1 2 3 4 5])
qed

theorem header_pattern_literal_witness:
  "headerRegex (Block ''(* '' '' *)'') ''Pa.th''
     = Inr (headerAst (Block ''(* '' '' *)'') ''Pa.th'') \<and>
   headerRegex_2 (Block ''(* '' '' *)'') ''Pa.th''
     = Inr (headerAst (Block ''(* '' '' *)'') ''Pa.th'') \<and>
   exec (headerAst (Block ''(* '' '' *)'') ''Pa.th'')
        ([] @ startOf (Block ''(* '' '' *)'') @ ''Pa.th'' @ '':'' @ '' '' @ ''a/b.ml''
         @ endOf (Block ''(* '' '' *)'') @ [LF] @ ''let x = 1'') \<noteq> None \<and>
   exec (headerAst (Block ''(* '' '' *)'') ''Pa.th'') (''(* Pa.th: a/b.ml *)'' @ [LF] @ ''let x = 1'')
     = Some \<lparr>index = 0, matched = ''(* Pa.th: a/b.ml *)'' @ [LF], groups = [(1, ''a/b.ml'')]\<rparr> \<and>
   exec (headerAst (Block ''(* '' '' *)'') ''Pa.th'') (''(* Paxth: a/b.ml *)'' @ [LF] @ ''let x = 1'')
     = None"
proof -
  let ?tk = "Block ''(* '' '' *)''"
  note t = header_pattern_literal [of ?tk "''Pa.th''"]
  note r1 = t [THEN conjunct1]
  note r2 = t [THEN conjunct2, THEN conjunct1]
  note comp = t [THEN conjunct2, THEN conjunct2, THEN conjunct2, rule_format]
  have c: "(\<forall>c \<in> set []. is_space c) \<and> (\<forall>c \<in> set '' ''. is_space c) \<and>
      ''a/b.ml'' \<noteq> [] \<and> (\<forall>c \<in> set ''a/b.ml''. \<not> is_line_terminator c) \<and>
      [LF] \<in> {[], [CR], [LF], [CR, LF]}"
    by (simp add: is_space_def is_line_terminator_def CR_def LF_def)
  have x: "exec (headerAst ?tk ''Pa.th'')
        ([] @ startOf ?tk @ ''Pa.th'' @ '':'' @ '' '' @ ''a/b.ml''
         @ endOf ?tk @ [LF] @ ''let x = 1'') \<noteq> None"
    by (rule comp [OF c])
  have e: "exec (headerAst ?tk ''Pa.th'') (''(* Pa.th: a/b.ml *)'' @ [LF] @ ''let x = 1'')
     = Some \<lparr>index = 0, matched = ''(* Pa.th: a/b.ml *)'' @ [LF], groups = [(1, ''a/b.ml'')]\<rparr>"
    by code_simp
  have n: "exec (headerAst ?tk ''Pa.th'') (''(* Paxth: a/b.ml *)'' @ [LF] @ ''let x = 1'') = None"
    by code_simp
  from r1 r2 x e n show ?thesis by (intro conjI)
qed

section \<open>The rendered header\<close>

text \<open>
  C8. The rendered header is the label, \<open>: \<close> and the path between the style's
  delimiters (the start alone for a line style), ended by the document's own line ending:
  CR LF for a CRLF document, LF otherwise. For python, label \<open>Path\<close> and path
  \<open>src/app.py\<close> it is \<open># Path: src/app.py\<close> and LF.
\<close>

theorem headerText_rendered:
  "headerText (Line start) label rel e = start @ label @ '': '' @ rel @ nlOf e \<and>
   headerText (Block start end) label rel e = start @ label @ '': '' @ rel @ end @ nlOf e \<and>
   nlOf EolCRLF = [CR, LF] \<and> nlOf EolLF = [LF] \<and>
   getCommentTokens ''python'' = Inr (Line ''# '') \<and>
   headerText (Line ''# '') ''Path'' ''src/app.py'' EolLF = ''# Path: src/app.py'' @ [LF]"
  by (simp add: headerText_def nlOf_def getCommentTokens_def js_get_def lineMap_def)

section \<open>No editor, no work\<close>

text \<open>
  C9. When there is no active editor, or the document is not the active editor's, both
  versions of \<open>ensureHeader\<close> return at once: no exception, and \<open>editor.edit\<close> is never
  called, so no edit is registered. (Neither version has a call that shows a message.)
\<close>

theorem ensureHeader_silent:
  "activeTextEditor h = None \<or> activeTextEditor h \<noteq> Some (docId doc) \<Longrightarrow>
   ensureHeader h doc = Inr None \<and> ensureHeader_2 h doc = Inr None"
  by (auto simp: ensureHeader_def ensureHeader_2_def)

theorem ensureHeader_silent_witness:
  "(activeTextEditor idleHost = None \<or> activeTextEditor idleHost \<noteq> Some (docId pythonDoc)) \<and>
   ensureHeader idleHost pythonDoc = Inr None \<and> ensureHeader_2 idleHost pythonDoc = Inr None \<and>
   activeTextEditor (activeHost htmlDoc) \<noteq> Some (docId pythonDoc) \<and>
   ensureHeader (activeHost htmlDoc) pythonDoc = Inr None \<and>
   ensureHeader (activeHost pythonDoc) pythonDoc \<noteq> Inr None"
proof -
  have a: "activeTextEditor idleHost = None \<or> activeTextEditor idleHost \<noteq> Some (docId pythonDoc)"
    by (simp add: idleHost_def)
  have b: "activeTextEditor (activeHost htmlDoc) \<noteq> Some (docId pythonDoc)"
    by (simp add: activeHost_def htmlDoc_def pythonDoc_def)
  have c: "ensureHeader (activeHost pythonDoc) pythonDoc \<noteq> Inr None"
    by code_simp
  have d: "ensureHeader (activeHost htmlDoc) pythonDoc = Inr None"
    using ensureHeader_silent [of "activeHost htmlDoc" pythonDoc] b by blast
  show ?thesis
    using a b c d ensureHeader_silent [OF a] by blast
qed

section \<open>The two versions\<close>

text \<open>
  C10. The claim: the two versions of \<open>ensureHeader\<close> compute the same target path for
  every document and configuration. The first takes \<open>asRelativePath\<close>; the second takes
  \<open>getRelPathOrAbs\<close>, which puts the workspace folder's name and a slash before the path
  unless \<open>includeWorkspaceFolder\<close> is set to false. With the setting left at its default
  the paths, the rendered headers and the edits differ.
\<close>

theorem target_path_differs:
  "asRelativePath htmlDoc = ''new/loc.html'' \<and>
   getRelPathOrAbs (activeHost htmlDoc) htmlDoc = ''proj/new/loc.html'' \<and>
   ensureHeader (activeHost htmlDoc) htmlDoc
     = Inr (Some (Replace \<lparr>rstart = \<lparr>line = 0, character = 0\<rparr>,
                           rend = \<lparr>line = 1, character = 0\<rparr>\<rparr>
                          (''<!-- Path: new/loc.html -->'' @ [CR, LF]))) \<and>
   ensureHeader_2 (activeHost htmlDoc) htmlDoc
     = Inr (Some (Replace \<lparr>rstart = \<lparr>line = 0, character = 0\<rparr>,
                           rend = \<lparr>line = 1, character = 0\<rparr>\<rparr>
                          (''<!-- Path: proj/new/loc.html -->'' @ [CR, LF])))"
  by code_simp

text \<open>
  C10, amended. For a document outside every workspace folder, or with
  \<open>includeWorkspaceFolder\<close> set to false, the two versions compute the same target path
  and return the same result, the edit included. Otherwise the second version's path is
  the folder's name, a slash and the first version's path.
\<close>

theorem versions_agree:
  assumes "workspaceFolder doc = None \<or> cfgIncludeWorkspaceFolder h = Some False"
  shows "getRelPathOrAbs h doc = asRelativePath doc \<and> ensureHeader_2 h doc = ensureHeader h doc \<and>
    (\<forall>name rel. workspaceFolder doc = Some (name, rel) \<longrightarrow>
       asRelativePath doc = rel \<and>
       getRelPathOrAbs (h\<lparr>cfgIncludeWorkspaceFolder := None\<rparr>) doc = name @ ''/'' @ rel \<and>
       getRelPathOrAbs (h\<lparr>cfgIncludeWorkspaceFolder := Some True\<rparr>) doc = name @ ''/'' @ rel)"
proof -
  from assms have p: "getRelPathOrAbs h doc = asRelativePath doc"
    by (auto simp: getRelPathOrAbs_def asRelativePath_def Let_def split: option.splits)
  have e: "ensureHeader_2 h doc = ensureHeader h doc"
    unfolding ensureHeader_def ensureHeader_2_def headerRegex_ast headerRegex_2_ast p ..
  have o: "asRelativePath doc = rel \<and>
       getRelPathOrAbs (h\<lparr>cfgIncludeWorkspaceFolder := None\<rparr>) doc = name @ ''/'' @ rel \<and>
       getRelPathOrAbs (h\<lparr>cfgIncludeWorkspaceFolder := Some True\<rparr>) doc = name @ ''/'' @ rel"
    if "workspaceFolder doc = Some (name, rel)" for name rel
    using that by (simp add: getRelPathOrAbs_def asRelativePath_def)
  from p e o show ?thesis by blast
qed

theorem versions_agree_witness:
  "workspaceFolder outsideDoc = None \<and>
   getRelPathOrAbs (activeHost outsideDoc) outsideDoc = ''/tmp/a.ts'' \<and>
   asRelativePath outsideDoc = ''/tmp/a.ts'' \<and>
   ensureHeader (activeHost outsideDoc) outsideDoc
     = Inr (Some (Insert \<lparr>line = 0, character = 0\<rparr> (''// Path: /tmp/a.ts'' @ [LF]))) \<and>
   ensureHeader_2 (activeHost outsideDoc) outsideDoc
     = Inr (Some (Insert \<lparr>line = 0, character = 0\<rparr> (''// Path: /tmp/a.ts'' @ [LF])))"
proof -
  have w: "workspaceFolder outsideDoc = None" by (simp add: outsideDoc_def)
  note t = versions_agree [OF disjI1 [OF w], of "activeHost outsideDoc"]
  have a: "asRelativePath outsideDoc = ''/tmp/a.ts''" by code_simp
  with t have g: "getRelPathOrAbs (activeHost outsideDoc) outsideDoc = ''/tmp/a.ts''" by simp
  have e1: "ensureHeader (activeHost outsideDoc) outsideDoc
     = Inr (Some (Insert \<lparr>line = 0, character = 0\<rparr> (''// Path: /tmp/a.ts'' @ [LF])))"
    by code_simp
  with t have e2: "ensureHeader_2 (activeHost outsideDoc) outsideDoc
     = Inr (Some (Insert \<lparr>line = 0, character = 0\<rparr> (''// Path: /tmp/a.ts'' @ [LF])))"
    by simp
  from w g a e1 e2 show ?thesis by (intro conjI)
qed

end
